theory Spec2Isabelle
  imports Main
begin

section \<open>Data model (src/index.ts)\<close>

text \<open>
  The plugin reads the bundler's stats snapshot. A module identifier in it is a string or a
  number, or is absent (\<^verbatim>\<open>undefined\<close> or \<^verbatim>\<open>null\<close>); a number identifier is a
  non-negative integer. The index and \<^verbatim>\<open>isCyclic\<close> address modules by strings
  (\<^verbatim>\<open>type ModuleMap = Record<string, StatsModule>\<close>,
  \<^verbatim>\<open>isCyclic(initialModule: string, currentModule: string, ...)\<close>), and the source converts
  where it has to (\<^verbatim>\<open>String(reasonModule.id)\<close>). Every other optional field is an
  \<open>option\<close>. An absent \<^verbatim>\<open>orphan\<close> flag reads as \<open>False\<close> under \<^verbatim>\<open>!module.orphan\<close>.
\<close>

datatype js_id = IdUndefined | IdNull | IdStr string | IdNum nat

record StatsModuleReason =
  moduleId :: js_id
  type :: "string option"

record StatsModule =
  id_m :: js_id
  name :: "string option"
  orphan :: bool
  reasons :: "StatsModuleReason list option"

text \<open>
  A plain JavaScript object used as a dictionary: its own properties, in insertion order.
\<close>

type_synonym ModuleMap = "(string \<times> StatsModule) list"

datatype 'e js_error = Error string | Caught 'e

record 'e Compilation =
  errors :: "'e js_error list"
  warnings :: "'e js_error list"

text \<open>
  A user callback receives the compilation object, may mutate it, and may throw: it
  returns the thrown value (if any) and the compilation as it left it.
\<close>

type_synonym 'e hook = "'e Compilation \<Rightarrow> 'e option \<times> 'e Compilation"

text \<open>
  A \<^verbatim>\<open>RegExp\<close> object is used only through \<^verbatim>\<open>name.match(re)\<close>. For a sticky pattern
  the answer depends on \<^verbatim>\<open>re.lastIndex\<close>, and the call moves \<^verbatim>\<open>re.lastIndex\<close>. So a
  pattern is its \<^verbatim>\<open>lastIndex\<close> and the function \<open>test_at\<close>: given the \<^verbatim>\<open>lastIndex\<close> before
  the call and the string, whether the result is non-null and the \<^verbatim>\<open>lastIndex\<close> after.
\<close>

record RegExp =
  lastIndex :: nat
  test_at :: "nat \<Rightarrow> string \<Rightarrow> bool \<times> nat"

record 'e Options =
  exclude_opt :: "RegExp option"
  include_opt :: "RegExp option"
  failOnError_opt :: "bool option"
  allowAsyncCycles_opt :: "bool option"
  onStart_opt :: "'e hook option"
  onDetected_opt :: "(string list \<Rightarrow> 'e hook) option"
  onEnd_opt :: "'e hook option"

record 'e FullOptions =
  exclude_re :: RegExp
  include_re :: RegExp
  failOnError :: bool
  allowAsyncCycles :: bool
  onStart :: "'e hook option"
  onDetected :: "(string list \<Rightarrow> 'e hook) option"
  onEnd :: "'e hook option"

text \<open>
  What a call can throw: \<^verbatim>\<open>RangeError\<close> when the call stack is exhausted,
  \<^verbatim>\<open>TypeError\<close> when a property of \<^verbatim>\<open>undefined\<close> is read, or the value a user callback
  threw.
\<close>

datatype 'e thrown = RangeError | TypeError | Raised 'e

datatype ('e, 'a) outcome = Throw 'e | Return 'a

section \<open>Helpers\<close>

definition truthy :: "string option \<Rightarrow> bool" where
  "truthy s = (case s of None \<Rightarrow> False | Some v \<Rightarrow> v \<noteq> [])"

text \<open>Truthiness of an identifier: absent, the empty string and \<open>0\<close> are falsy.\<close>

definition truthy_id :: "js_id \<Rightarrow> bool" where
  "truthy_id i = (case i of IdStr s \<Rightarrow> s \<noteq> [] | IdNum n \<Rightarrow> n \<noteq> 0 | _ \<Rightarrow> False)"

definition nullish_or :: "'a option \<Rightarrow> 'a \<Rightarrow> 'a" where
  "nullish_or x d = (case x of None \<Rightarrow> d | Some v \<Rightarrow> v)"

text \<open>
  The decimal numeral of a number, which is what \<^verbatim>\<open>String(n)\<close> and the conversion to a
  property key give for a non-negative integer below \<open>10^21\<close>.
\<close>

fun decimal :: "nat \<Rightarrow> string" where
  "decimal n =
     (if n < 10 then [''0123456789'' ! n]
      else decimal (n div 10) @ [''0123456789'' ! (n mod 10)])"

declare decimal.simps [simp del]

text \<open>
  \<^verbatim>\<open>String(id)\<close>, which is also the property key an identifier is stored and looked up
  under: \<^verbatim>\<open>Object.fromEntries\<close> stores a module whose \<^verbatim>\<open>id\<close> is \<^verbatim>\<open>undefined\<close> under the
  key \<^verbatim>\<open>"undefined"\<close>.
\<close>

definition property_key :: "js_id \<Rightarrow> string" where
  "property_key i =
     (case i of IdUndefined \<Rightarrow> ''undefined'' | IdNull \<Rightarrow> ''null'' | IdStr s \<Rightarrow> s
      | IdNum n \<Rightarrow> decimal n)"

text \<open>\<^verbatim>\<open>name.match(re)\<close>: whether it is non-null, and the pattern afterwards.\<close>

definition str_match :: "RegExp \<Rightarrow> string \<Rightarrow> bool \<times> RegExp" where
  "str_match re s =
     (case test_at re (lastIndex re) s of (found, i) \<Rightarrow> (found, re\<lparr>lastIndex := i\<rparr>))"

text \<open>
  A pattern matches a string when a search from the start of the string finds it. The answer
  of \<^verbatim>\<open>name.match(re)\<close> is that for every pattern whose answer does not depend on
  \<^verbatim>\<open>lastIndex\<close>, which is every pattern without the sticky flag.
\<close>

definition matches :: "RegExp \<Rightarrow> string \<Rightarrow> bool" where
  "matches re s = fst (test_at re 0 s)"

definition ignores_lastIndex :: "RegExp \<Rightarrow> bool" where
  "ignores_lastIndex re = (\<forall>i s. fst (test_at re i s) = fst (test_at re 0 s))"

text \<open>\<^verbatim>\<open>/$^/\<close> has no flag: it matches the empty string and nothing else, and leaves
  \<^verbatim>\<open>lastIndex\<close> alone.\<close>

definition default_exclude :: RegExp where
  "default_exclude = \<lparr> lastIndex = 0, test_at = (\<lambda>i s. (s = [], i)) \<rparr>"

text \<open>\<^verbatim>\<open>/.*/\<close> matches (the empty prefix of) every string.\<close>

definition default_include :: RegExp where
  "default_include = \<lparr> lastIndex = 0, test_at = (\<lambda>i s. (True, i)) \<rparr>"

fun starts_with :: "string \<Rightarrow> string \<Rightarrow> bool" where
  "starts_with [] s = True"
| "starts_with (p # ps) [] = False"
| "starts_with (p # ps) (c # cs) = (p = c \<and> starts_with ps cs)"

fun includes_str :: "string \<Rightarrow> string \<Rightarrow> bool" where
  "includes_str p [] = starts_with p []"
| "includes_str p (c # cs) = (starts_with p (c # cs) \<or> includes_str p cs)"

text \<open>\<^verbatim>\<open>reason.type?.match(/dynamic import|import\(\)/)\<close>\<close>

definition is_dynamic_import :: "string option \<Rightarrow> bool" where
  "is_dynamic_import t =
     (case t of None \<Rightarrow> False
      | Some s \<Rightarrow> includes_str ''dynamic import'' s \<or> includes_str ''import()'' s)"

text \<open>\<^verbatim>\<open>path?.replace(/^\.\//, "")\<close>\<close>

definition normalizePath :: "string option \<Rightarrow> string option" where
  "normalizePath path =
     (case path of None \<Rightarrow> None
      | Some s \<Rightarrow> Some (if starts_with ''./'' s then drop 2 s else s))"

text \<open>
  The names every ordinary object inherits from \<^verbatim>\<open>Object.prototype\<close>. The operator
  \<^verbatim>\<open>in\<close> walks the prototype chain, so \<^verbatim>\<open>k in seenModules\<close> holds for these names
  whatever has been stored in \<^verbatim>\<open>seenModules\<close>.
\<close>

definition Object_prototype_keys :: "string list" where
  "Object_prototype_keys =
     [''constructor'', ''__defineGetter__'', ''__defineSetter__'', ''hasOwnProperty'',
      ''__lookupGetter__'', ''__lookupSetter__'', ''isPrototypeOf'', ''propertyIsEnumerable'',
      ''toString'', ''valueOf'', ''__proto__'', ''toLocaleString'']"

definition in_object :: "string \<Rightarrow> string set \<Rightarrow> bool" where
  "in_object k own = (k \<in> own \<or> k \<in> set Object_prototype_keys)"

text \<open>
  \<^verbatim>\<open>seenModules[k] = true\<close> on the set of own keys of \<^verbatim>\<open>seenModules\<close>. The assignment
  to \<^verbatim>\<open>__proto__\<close> calls the setter inherited from \<^verbatim>\<open>Object.prototype\<close>, which ignores
  \<^verbatim>\<open>true\<close>: no own property is created.
\<close>

definition set_seen :: "string \<Rightarrow> string set \<Rightarrow> string set" where
  "set_seen k own = (if k = ''__proto__'' then own else insert k own)"

section \<open>Graph Index Builder (apply, lines 44-54)\<close>

text \<open>Storing a property: an existing key keeps its position, a new key goes last.\<close>

fun set_property :: "string \<Rightarrow> 'v \<Rightarrow> (string \<times> 'v) list \<Rightarrow> (string \<times> 'v) list" where
  "set_property k v [] = [(k, v)]"
| "set_property k v (p # ps) =
     (if fst p = k then (k, v) # ps else p # set_property k v ps)"

definition Object_fromEntries :: "(string \<times> 'v) list \<Rightarrow> (string \<times> 'v) list" where
  "Object_fromEntries es = foldl (\<lambda>obj e. set_property (fst e) (snd e) obj) [] es"

text \<open>
  The filter of lines 46-52, module by module. \<^verbatim>\<open>&&\<close> evaluates its right operand only
  when the left one is truthy, so \<open>include\<close> is consulted for a named module that is not
  an orphan, and \<open>exclude\<close> for one that \<open>include\<close> has accepted; each call may move the
  \<^verbatim>\<open>lastIndex\<close> of its pattern.
\<close>

fun filter_modules :: "RegExp \<Rightarrow> RegExp \<Rightarrow> StatsModule list \<Rightarrow> StatsModule list" where
  "filter_modules inc exc [] = []"
| "filter_modules inc exc (m # ms) =
     (if orphan m then filter_modules inc exc ms
      else case name m of
             None \<Rightarrow> filter_modules inc exc ms
           | Some nm \<Rightarrow>
               if nm = [] then filter_modules inc exc ms
               else case str_match inc nm of
                      (False, inc') \<Rightarrow> filter_modules inc' exc ms
                    | (True, inc') \<Rightarrow>
                        (case str_match exc nm of
                           (True, exc') \<Rightarrow> filter_modules inc' exc' ms
                         | (False, exc') \<Rightarrow> m # filter_modules inc' exc' ms))"

definition build_modulesById :: "'e FullOptions \<Rightarrow> StatsModule list option \<Rightarrow> ModuleMap" where
  "build_modulesById opts modules =
     Object_fromEntries
       (map (\<lambda>m. (property_key (id_m m), m))
          (filter_modules (include_re opts) (exclude_re opts) (nullish_or modules [])))"

text \<open>
  The condition of the filter as a property of one module: not an orphan, with a non-empty
  name that \<open>include\<close> matches and \<open>exclude\<close> does not match.
\<close>

definition retained :: "'e FullOptions \<Rightarrow> StatsModule \<Rightarrow> bool" where
  "retained opts m =
     (\<not> orphan m \<and>
      (case name m of None \<Rightarrow> False
       | Some nm \<Rightarrow> nm \<noteq> [] \<and> matches (include_re opts) nm \<and> \<not> matches (exclude_re opts) nm))"

text \<open>The constructor, lines 27-37.\<close>

definition constructor :: "'e Options \<Rightarrow> 'e FullOptions" where
  "constructor options =
     \<lparr> exclude_re = nullish_or (exclude_opt options) default_exclude,
       include_re = nullish_or (include_opt options) default_include,
       failOnError = nullish_or (failOnError_opt options) False,
       allowAsyncCycles = nullish_or (allowAsyncCycles_opt options) False,
       onStart = onStart_opt options,
       onDetected = onDetected_opt options,
       onEnd = onEnd_opt options \<rparr>"

text \<open>
  \<^verbatim>\<open>Object.keys\<close> lists the keys that are array indices (canonical decimal numerals below
  \<open>2^32 - 1\<close>) first, in ascending numeric order, and then the other keys in insertion order.
\<close>

definition is_digit :: "char \<Rightarrow> bool" where
  "is_digit c = (c \<in> set ''0123456789'')"

definition digits_value :: "string \<Rightarrow> nat" where
  "digits_value s = foldl (\<lambda>acc c. 10 * acc + ((of_char c :: nat) - 48)) 0 s"

definition is_array_index :: "string \<Rightarrow> bool" where
  "is_array_index s =
     (s \<noteq> [] \<and> list_all is_digit s \<and> (s = ''0'' \<or> take 1 s \<noteq> ''0'') \<and>
      digits_value s < 4294967295)"

definition Object_keys :: "(string \<times> 'v) list \<Rightarrow> string list" where
  "Object_keys obj =
     sort_key digits_value (filter is_array_index (map fst obj)) @
     filter (\<lambda>k. \<not> is_array_index k) (map fst obj)"

section \<open>Cycle Detector (isCyclic, lines 90-143)\<close>

text \<open>
  Lines 100-113 of the loop body: the module a reason leads to, with \<^verbatim>\<open>String\<close> of its
  \<^verbatim>\<open>id\<close>, unless one of the first two \<^verbatim>\<open>continue\<close>s applies. \<^verbatim>\<open>reason.moduleId\<close> must be
  truthy and, as a property key, an own key of the index (an inherited property of the index
  object has no \<^verbatim>\<open>id\<close>, and is skipped as an absent one is), the module found must have a
  truthy \<^verbatim>\<open>id\<close>, and with \<^verbatim>\<open>allowAsyncCycles\<close> the reason must not be a dynamic import.
\<close>

definition reasonModule :: "'e FullOptions \<Rightarrow> ModuleMap \<Rightarrow> StatsModuleReason \<Rightarrow> (string \<times> StatsModule) option" where
  "reasonModule opts modulesById reason =
     (if \<not> truthy_id (moduleId reason) then None
      else case map_of modulesById (property_key (moduleId reason)) of
             None \<Rightarrow> None
           | Some rm \<Rightarrow>
               if \<not> truthy_id (id_m rm) then None
               else if allowAsyncCycles opts \<and> is_dynamic_import (type reason) then None
               else Some (property_key (id_m rm), rm))"

text \<open>
  \<^verbatim>\<open>isCyclic\<close> recurses inside its loop over the reasons and shares one mutable
  \<^verbatim>\<open>seenModules\<close> object among all the calls of a search: the model passes the set of own
  keys of that object along and returns it. The first argument is the number of nested calls
  of \<^verbatim>\<open>isCyclic\<close> the call stack still has room for: with none left the call throws
  \<^verbatim>\<open>RangeError\<close>. \<open>Throw TypeError\<close> is line 99 reading \<^verbatim>\<open>.reasons\<close> of \<^verbatim>\<open>undefined\<close>.
  When \<^verbatim>\<open>currentModule\<close> is not an own key of the index but a name inherited from
  \<^verbatim>\<open>Object.prototype\<close>, \<^verbatim>\<open>modulesById[currentModule]\<close> is the inherited function or
  object: it has no \<^verbatim>\<open>reasons\<close>, the loop runs over \<^verbatim>\<open>[]\<close> and the call returns
  \<^verbatim>\<open>undefined\<close>. Line 117 compares \<^verbatim>\<open>reasonModule.id\<close> with the string
  \<^verbatim>\<open>initialModule\<close> by \<^verbatim>\<open>===\<close>, which holds for that string and for no number.
\<close>

fun isCyclic :: "nat \<Rightarrow> 'e FullOptions \<Rightarrow> string \<Rightarrow> string \<Rightarrow> ModuleMap \<Rightarrow> string set
      \<Rightarrow> ('e thrown, string list option \<times> string set) outcome"
  and isCyclic_loop :: "nat \<Rightarrow> 'e FullOptions \<Rightarrow> string \<Rightarrow> string \<Rightarrow> ModuleMap \<Rightarrow> string option
      \<Rightarrow> StatsModuleReason list \<Rightarrow> string set
      \<Rightarrow> ('e thrown, string list option \<times> string set) outcome"
where
  "isCyclic 0 opts initialModule currentModule modulesById seenModules = Throw RangeError"
| "isCyclic (Suc stack) opts initialModule currentModule modulesById seenModules =
     (let currentModuleName =
            (case map_of modulesById currentModule of None \<Rightarrow> None | Some m \<Rightarrow> name m);
          seenModules = set_seen currentModule seenModules
      in case map_of modulesById currentModule of
           Some m \<Rightarrow>
             isCyclic_loop stack opts initialModule currentModule modulesById currentModuleName
               (nullish_or (reasons m) []) seenModules
         | None \<Rightarrow>
             if currentModule \<in> set Object_prototype_keys then Return (None, seenModules)
             else Throw TypeError)"
| "isCyclic_loop stack opts initialModule currentModule modulesById currentModuleName []
       seenModules =
     Return (None, seenModules)"
| "isCyclic_loop stack opts initialModule currentModule modulesById currentModuleName
       (reason # rest) seenModules =
     (case reasonModule opts modulesById reason of
        None \<Rightarrow>
          isCyclic_loop stack opts initialModule currentModule modulesById currentModuleName rest
            seenModules
      | Some (rid, rm) \<Rightarrow>
          if in_object rid seenModules then
            (if id_m rm = IdStr initialModule \<and> currentModule \<noteq> initialModule then
               Return (Some [nullish_or (normalizePath (name rm)) rid,
                             nullish_or (normalizePath currentModuleName) currentModule],
                       seenModules)
             else
               isCyclic_loop stack opts initialModule currentModule modulesById
                 currentModuleName rest seenModules)
          else
            (case isCyclic stack opts initialModule rid modulesById seenModules of
               Throw e \<Rightarrow> Throw e
             | Return (Some maybeCyclicalPathsList, seenModules') \<Rightarrow>
                 Return (Some (maybeCyclicalPathsList @
                               [nullish_or (normalizePath currentModuleName) currentModule]),
                         seenModules')
             | Return (None, seenModules') \<Rightarrow>
                 isCyclic_loop stack opts initialModule currentModule modulesById
                   currentModuleName rest seenModules'))"

section \<open>Orchestration (apply, lines 39-88)\<close>

definition BASE_ERROR :: string where
  "BASE_ERROR = ''Circular dependency detected:'' @ [CHR 0x0D, CHR 0x0A]"

fun join :: "string \<Rightarrow> string list \<Rightarrow> string" where
  "join sep [] = []"
| "join sep [x] = x"
| "join sep (x # y # ys) = x @ sep @ join sep (y # ys)"

text \<open>Lines 63-83: what is done with one detected path.\<close>

definition report :: "'e FullOptions \<Rightarrow> string list \<Rightarrow> 'e Compilation \<Rightarrow> 'e Compilation" where
  "report opts maybeCyclicalPathsList compilation =
     (case onDetected opts of
        Some callback \<Rightarrow>
          (case callback maybeCyclicalPathsList compilation of
             (None, compilation') \<Rightarrow> compilation'
           | (Some err, compilation') \<Rightarrow>
               compilation'\<lparr>errors := errors compilation' @ [Caught err]\<rparr>)
      | None \<Rightarrow>
          (let message = BASE_ERROR @ join '' -> '' maybeCyclicalPathsList
           in if failOnError opts
              then compilation\<lparr>errors := errors compilation @ [Error message]\<rparr>
              else compilation\<lparr>warnings := warnings compilation @ [Error message]\<rparr>))"

text \<open>
  Lines 56-84: one search per key of the index, each with a fresh \<^verbatim>\<open>seenModules\<close> and
  the same room on the call stack.
\<close>

fun detect_each :: "nat \<Rightarrow> 'e FullOptions \<Rightarrow> ModuleMap \<Rightarrow> string list \<Rightarrow> 'e Compilation
      \<Rightarrow> ('e thrown, 'e Compilation) outcome" where
  "detect_each stack opts modulesById [] compilation = Return compilation"
| "detect_each stack opts modulesById (module # rest) compilation =
     (case isCyclic stack opts module module modulesById {} of
        Throw e \<Rightarrow> Throw e
      | Return (None, seen) \<Rightarrow> detect_each stack opts modulesById rest compilation
      | Return (Some maybeCyclicalPathsList, seen) \<Rightarrow>
          detect_each stack opts modulesById rest
            (report opts maybeCyclicalPathsList compilation))"

definition run_hook :: "'e hook option \<Rightarrow> 'e Compilation \<Rightarrow> ('e thrown, 'e Compilation) outcome" where
  "run_hook h compilation =
     (case h of None \<Rightarrow> Return compilation
      | Some f \<Rightarrow> (case f compilation of
                     (None, compilation') \<Rightarrow> Return compilation'
                   | (Some err, compilation') \<Rightarrow> Throw (Raised err)))"

text \<open>
  The function tapped on \<^verbatim>\<open>afterCompile\<close>: \<open>stack\<close> is the room on the call stack when
  a search starts, \<open>modules\<close> is \<^verbatim>\<open>compilation.getStats().toJson().modules\<close>.
\<close>

definition apply_plugin :: "nat \<Rightarrow> 'e FullOptions \<Rightarrow> StatsModule list option \<Rightarrow> 'e Compilation
      \<Rightarrow> ('e thrown, 'e Compilation) outcome" where
  "apply_plugin stack opts modules compilation =
     (case run_hook (onStart opts) compilation of
        Throw e \<Rightarrow> Throw e
      | Return c1 \<Rightarrow>
          (let idx = build_modulesById opts modules
           in case detect_each stack opts idx (Object_keys idx) c1 of
                Throw e \<Rightarrow> Throw e
              | Return c2 \<Rightarrow> run_hook (onEnd opts) c2))"

section \<open>The graph a search walks\<close>

text \<open>
  \<open>edge_targets\<close> lists, for a module of the index, the keys its reasons lead to after the
  skips of lines 100-113. \<open>edges\<close> leaves out the reasons that lead back to the module
  that owns them.
\<close>

definition edge_targets :: "'e FullOptions \<Rightarrow> ModuleMap \<Rightarrow> string \<Rightarrow> string list" where
  "edge_targets opts modulesById currentModule =
     (case map_of modulesById currentModule of
        None \<Rightarrow> []
      | Some m \<Rightarrow>
          map fst (List.map_filter (reasonModule opts modulesById) (nullish_or (reasons m) [])))"

definition edges :: "'e FullOptions \<Rightarrow> ModuleMap \<Rightarrow> (string \<times> string) set" where
  "edges opts modulesById = {(a, b). b \<in> set (edge_targets opts modulesById a) \<and> b \<noteq> a}"

text \<open>\<^verbatim>\<open>normalizePath(modulesById[k]?.name) ?? k\<close>, the path element for the module \<open>k\<close>.\<close>

definition displayName :: "ModuleMap \<Rightarrow> string \<Rightarrow> string" where
  "displayName modulesById k =
     nullish_or
       (normalizePath (case map_of modulesById k of None \<Rightarrow> None | Some m \<Rightarrow> name m)) k"

text \<open>
  Properties of an index: every module sits under the key of its own identifier; every
  module has a non-empty name; the module under the key \<open>k\<close> has the string \<open>k\<close> as its
  identifier; no key other than \<open>k\<close> is a name inherited from \<^verbatim>\<open>Object.prototype\<close>.
\<close>

definition key_consistent :: "ModuleMap \<Rightarrow> bool" where
  "key_consistent modulesById = list_all (\<lambda>e. property_key (id_m (snd e)) = fst e) modulesById"

definition all_named :: "ModuleMap \<Rightarrow> bool" where
  "all_named modulesById = list_all (\<lambda>e. truthy (name (snd e))) modulesById"

definition has_string_id :: "ModuleMap \<Rightarrow> string \<Rightarrow> bool" where
  "has_string_id modulesById k =
     (case map_of modulesById k of None \<Rightarrow> False | Some m \<Rightarrow> id_m m = IdStr k)"

definition no_inherited_key_but :: "string \<Rightarrow> ModuleMap \<Rightarrow> bool" where
  "no_inherited_key_but k modulesById =
     list_all (\<lambda>e. fst e = k \<or> fst e \<notin> set Object_prototype_keys) modulesById"

text \<open>The keys \<^verbatim>\<open>in\<close> finds in \<^verbatim>\<open>seenModules\<close>: its own keys and the inherited names.\<close>

definition visited :: "string set \<Rightarrow> string set" where
  "visited own = own \<union> set Object_prototype_keys"

text \<open>
  Two predicates for the search invariant. \<open>closed_in S X\<close>: every edge that starts in \<open>X\<close>
  ends in \<open>S\<close> and does not end at the start module. \<open>reasons_done S rs\<close>: the same for
  the reasons \<open>rs\<close> of the current module that lead to another module.
\<close>

definition closed_in :: "'e FullOptions \<Rightarrow> ModuleMap \<Rightarrow> string \<Rightarrow> string set \<Rightarrow> string set \<Rightarrow> bool" where
  "closed_in opts idx init S X =
     (\<forall>x \<in> X. \<forall>y. (x, y) \<in> edges opts idx \<longrightarrow> y \<in> S \<and> y \<noteq> init)"

definition reasons_done :: "'e FullOptions \<Rightarrow> ModuleMap \<Rightarrow> string \<Rightarrow> string \<Rightarrow> string set
    \<Rightarrow> StatsModuleReason list \<Rightarrow> bool" where
  "reasons_done opts idx init cur S rs =
     (\<forall>reason \<in> set rs. \<forall>rid rm. reasonModule opts idx reason = Some (rid, rm) \<longrightarrow>
          rid \<noteq> cur \<longrightarrow> rid \<in> S \<and> rid \<noteq> init)"

text \<open>
  \<open>closes_at init p\<close>: some module \<open>c\<close> other than the start has a reason that is
  followed to a module whose \<^verbatim>\<open>id\<close> is the start identifier, and the path \<open>p\<close> begins
  with the path elements of that module and of \<open>c\<close>.
\<close>

definition closes_at :: "'e FullOptions \<Rightarrow> ModuleMap \<Rightarrow> string \<Rightarrow> string list \<Rightarrow> bool" where
  "closes_at opts idx init p =
     (\<exists>c cm reason rm.
         map_of idx c = Some cm \<and> reason \<in> set (nullish_or (reasons cm) []) \<and>
         reasonModule opts idx reason = Some (init, rm) \<and> id_m rm = IdStr init \<and> c \<noteq> init \<and>
         hd p = nullish_or (normalizePath (name rm)) init \<and>
         p ! 1 = nullish_or (normalizePath (name cm)) c)"

text \<open>
  The paths the searches from the given keys find, in the order of the keys: what a pass
  over the index has to report.
\<close>

definition detections :: "nat \<Rightarrow> 'e FullOptions \<Rightarrow> ModuleMap \<Rightarrow> string list \<Rightarrow> string list list" where
  "detections stack opts modulesById keys =
     List.map_filter
       (\<lambda>k. case isCyclic stack opts k k modulesById {} of
              Return (Some p, s) \<Rightarrow> Some p
            | _ \<Rightarrow> None)
       keys"

text \<open>The message of lines 74-76 for a path.\<close>

definition message :: "string list \<Rightarrow> string" where
  "message paths = ''Circular dependency detected:'' @ [CHR 0x0D, CHR 0x0A] @ join '' -> '' paths"

section \<open>Example inputs\<close>

definition esm :: "string \<Rightarrow> StatsModuleReason" where
  "esm src = \<lparr> moduleId = IdStr src, type = Some ''esm import'' \<rparr>"

definition dyn :: "string \<Rightarrow> StatsModuleReason" where
  "dyn src = \<lparr> moduleId = IdStr src, type = Some ''dynamic import'' \<rparr>"

definition entry :: StatsModuleReason where
  "entry = \<lparr> moduleId = IdUndefined, type = Some ''entry'' \<rparr>"

definition module :: "string \<Rightarrow> string \<Rightarrow> StatsModuleReason list \<Rightarrow> StatsModule" where
  "module i nm rs = \<lparr> id_m = IdStr i, name = Some nm, orphan = False, reasons = Some rs \<rparr>"

definition no_options :: "unit Options" where
  "no_options = \<lparr> exclude_opt = None, include_opt = None, failOnError_opt = None,
     allowAsyncCycles_opt = None, onStart_opt = None, onDetected_opt = None, onEnd_opt = None \<rparr>"

definition default_options :: "unit FullOptions" where
  "default_options = constructor no_options"

definition async_options :: "unit FullOptions" where
  "async_options = constructor (no_options\<lparr>allowAsyncCycles_opt := Some True\<rparr>)"

text \<open>Two modules that import each other.\<close>

definition two_cycle :: "StatsModule list" where
  "two_cycle = [module ''a'' ''./a.js'' [entry, esm ''b''], module ''b'' ''./b.js'' [esm ''a'']]"

text \<open>The same, with one module whose identifier is a name every object inherits.\<close>

definition constructor_cycle :: "StatsModule list" where
  "constructor_cycle =
     [module ''a'' ''./a.js'' [entry, esm ''constructor''],
      module ''constructor'' ''./constructor.js'' [esm ''a'']]"

text \<open>The same, with numbers as identifiers.\<close>

definition numeric_cycle :: "StatsModule list" where
  "numeric_cycle =
     [\<lparr> id_m = IdNum 1, name = Some ''./a.js'', orphan = False,
        reasons = Some [entry, \<lparr> moduleId = IdNum 2, type = Some ''esm import'' \<rparr>] \<rparr>,
      \<lparr> id_m = IdNum 2, name = Some ''./b.js'', orphan = False,
        reasons = Some [\<lparr> moduleId = IdNum 1, type = Some ''esm import'' \<rparr>] \<rparr>]"

text \<open>A cycle closed by a dynamic import, between two modules with inherited names.\<close>

definition inherited_async_cycle :: "StatsModule list" where
  "inherited_async_cycle =
     [module ''toString'' ''./toString.js'' [entry, dyn ''valueOf''],
      module ''valueOf'' ''./valueOf.js'' [esm ''toString'']]"

text \<open>A cycle closed by a dynamic import.\<close>

definition async_cycle :: "StatsModule list" where
  "async_cycle = [module ''a'' ''./a.js'' [entry, dyn ''b''], module ''b'' ''./b.js'' [esm ''a'']]"

text \<open>A module that has itself among its reasons.\<close>

definition self_loop :: "StatsModule list" where
  "self_loop = [module ''a'' ''./a.js'' [entry, esm ''a''], module ''b'' ''./b.js'' [esm ''a'']]"


text \<open>Two named modules without an \<^verbatim>\<open>id\<close>: both are stored under the key \<^verbatim>\<open>"undefined"\<close>.\<close>

definition unidentified_modules :: "StatsModule list" where
  "unidentified_modules =
     [\<lparr> id_m = IdUndefined, name = Some ''./a.js'', orphan = False, reasons = None \<rparr>,
      \<lparr> id_m = IdUndefined, name = Some ''./b.js'', orphan = False, reasons = None \<rparr>]"

text \<open>Two orphans without an \<^verbatim>\<open>id\<close> and one retained module.\<close>

definition orphans_and_one :: "StatsModule list" where
  "orphans_and_one =
     [\<lparr> id_m = IdUndefined, name = Some ''./x.js'', orphan = True, reasons = None \<rparr>,
      \<lparr> id_m = IdUndefined, name = Some ''./y.js'', orphan = True, reasons = None \<rparr>,
      module ''a'' ''./a.js'' [entry]]"

text \<open>
  The sticky pattern \<^verbatim>\<open>/lib/y\<close>: it looks for \<^verbatim>\<open>lib\<close> at \<^verbatim>\<open>lastIndex\<close> only, moves
  \<^verbatim>\<open>lastIndex\<close> behind what it found and resets it to \<open>0\<close> when it finds nothing. Two
  modules whose names it matches.
\<close>

definition sticky_lib :: RegExp where
  "sticky_lib =
     \<lparr> lastIndex = 0,
       test_at = (\<lambda>i s. if starts_with ''lib'' (drop i s) then (True, i + 3) else (False, 0)) \<rparr>"

definition sticky_options :: "unit FullOptions" where
  "sticky_options = constructor (no_options\<lparr>include_opt := Some sticky_lib\<rparr>)"

definition lib_modules :: "StatsModule list" where
  "lib_modules = [module ''x'' ''lib/x.js'' [entry], module ''y'' ''lib/y.js'' [entry]]"

text \<open>A detection callback that throws.\<close>

definition throwing_callback :: "string list \<Rightarrow> unit hook" where
  "throwing_callback paths compilation = (Some (), compilation)"

definition throwing_options :: "unit FullOptions" where
  "throwing_options = constructor (no_options\<lparr>onDetected_opt := Some throwing_callback\<rparr>)"

definition failing_options :: "unit FullOptions" where
  "failing_options = constructor (no_options\<lparr>failOnError_opt := Some True\<rparr>)"

section \<open>The index is a finite map\<close>

lemma map_of_set_property: "map_of (set_property k v ps) = (map_of ps)(k \<mapsto> v)"
  by (induction ps) (auto simp: fun_eq_iff)

lemma set_set_property: "set (set_property k v ps) \<subseteq> insert (k, v) (set ps)"
  by (induction ps) auto

lemma fromEntries_foldl:
  "map_of (foldl (\<lambda>obj e. set_property (fst e) (snd e) obj) acc es) = map_of (rev es @ acc)"
  by (induction es arbitrary: acc) (auto simp: map_of_set_property fun_eq_iff map_add_def split: option.splits)

lemma map_of_fromEntries: "map_of (Object_fromEntries es) = map_of (rev es)"
  by (simp add: Object_fromEntries_def fromEntries_foldl)

lemma set_foldl_set_property:
  "set (foldl (\<lambda>obj e. set_property (fst e) (snd e) obj) acc es) \<subseteq> set acc \<union> set es"
proof (induction es arbitrary: acc)
  case Nil
  then show ?case by simp
next
  case (Cons e es)
  have "set (set_property (fst e) (snd e) acc) \<subseteq> insert e (set acc)"
    using set_set_property[of "fst e" "snd e" acc] by simp
  with Cons[of "set_property (fst e) (snd e) acc"] show ?case by auto
qed

lemma set_fromEntries: "set (Object_fromEntries es) \<subseteq> set es"
  using set_foldl_set_property[of "[]" es] by (simp add: Object_fromEntries_def)

lemma set_Object_keys: "set (Object_keys obj) = fst ` set obj"
  by (auto simp: Object_keys_def)

lemma finite_dom_idx: "finite (dom (map_of (idx :: ModuleMap)))"
  by (rule finite_dom_map_of)

lemma card_dom_le_length: "card (dom (map_of (idx :: ModuleMap))) \<le> length idx"
  by (simp add: dom_map_of_conv_image_fst card_image_le[THEN order_trans] card_length)

section \<open>The filter\<close>

lemma str_match_test_at: "test_at (snd (str_match re s)) = test_at re"
  by (simp add: str_match_def split: prod.splits)

lemma str_match_matches:
  "ignores_lastIndex re \<Longrightarrow> fst (str_match re s) = matches re s"
  by (simp add: str_match_def ignores_lastIndex_def matches_def split: prod.splits)
     (metis fst_conv)

lemma str_match_ignores: "ignores_lastIndex (snd (str_match re s)) = ignores_lastIndex re"
  by (simp add: ignores_lastIndex_def str_match_test_at)

lemma str_match_keeps_matches: "matches (snd (str_match re s)) t = matches re t"
  by (simp add: matches_def str_match_test_at)

lemma filter_modules_Cons:
  "filter_modules inc exc (m # ms) =
     (if orphan m \<or> \<not> truthy (name m) then filter_modules inc exc ms
      else if \<not> fst (str_match inc (the (name m)))
        then filter_modules (snd (str_match inc (the (name m)))) exc ms
      else if fst (str_match exc (the (name m)))
        then filter_modules (snd (str_match inc (the (name m))))
               (snd (str_match exc (the (name m)))) ms
      else m # filter_modules (snd (str_match inc (the (name m))))
                 (snd (str_match exc (the (name m)))) ms)"
  by (auto simp: truthy_def split: option.splits prod.splits bool.splits)

lemma filter_modules_subset:
  "m \<in> set (filter_modules inc exc ms) \<Longrightarrow> m \<in> set ms \<and> \<not> orphan m \<and> truthy (name m)"
proof (induction ms arbitrary: inc exc)
  case Nil
  then show ?case by simp
next
  case (Cons x xs)
  from Cons.prems show ?case
    unfolding filter_modules_Cons
    by (auto split: if_splits dest: Cons.IH)
qed

lemma filter_modules_pure:
  assumes "ignores_lastIndex inc" and "ignores_lastIndex exc"
  shows "filter_modules inc exc ms =
           filter (\<lambda>m. \<not> orphan m \<and>
                     (case name m of None \<Rightarrow> False
                      | Some nm \<Rightarrow> nm \<noteq> [] \<and> matches inc nm \<and> \<not> matches exc nm)) ms"
  using assms
proof (induction ms arbitrary: inc exc)
  case Nil
  then show ?case by simp
next
  case (Cons x xs)
  note IH = Cons.IH and i = Cons.prems(1) and e = Cons.prems(2)
  have keep: "(case name x of None \<Rightarrow> False
              | Some nm \<Rightarrow> nm \<noteq> [] \<and> matches inc nm \<and> \<not> matches exc nm) \<longleftrightarrow>
        truthy (name x) \<and> fst (str_match inc (the (name x))) \<and> \<not> fst (str_match exc (the (name x)))"
    by (auto simp: truthy_def str_match_matches[OF i] str_match_matches[OF e] split: option.splits)
  have i': "ignores_lastIndex (snd (str_match inc s))" for s using i by (simp add: str_match_ignores)
  have e': "ignores_lastIndex (snd (str_match exc s))" for s using e by (simp add: str_match_ignores)
  show ?case
    unfolding filter_modules_Cons
    by (simp add: keep IH[OF i' e'] IH[OF i' e] IH[OF i e] str_match_keeps_matches
          cong: option.case_cong)
qed

lemma retained_filter:
  assumes "ignores_lastIndex (include_re opts)" and "ignores_lastIndex (exclude_re opts)"
  shows "filter_modules (include_re opts) (exclude_re opts) ms = filter (retained opts) ms"
  unfolding filter_modules_pure[OF assms] retained_def ..

section \<open>The index the builder makes\<close>

lemma build_members:
  "(k, m) \<in> set (build_modulesById opts modules) \<Longrightarrow>
     m \<in> set (nullish_or modules []) \<and> \<not> orphan m \<and> truthy (name m) \<and>
     property_key (id_m m) = k"
  using set_fromEntries[of "map (\<lambda>m. (property_key (id_m m), m))
      (filter_modules (include_re opts) (exclude_re opts) (nullish_or modules []))"]
  by (auto simp: build_modulesById_def dest: filter_modules_subset)

lemma build_key_consistent: "key_consistent (build_modulesById opts modules)"
  by (auto simp: key_consistent_def list_all_iff dest: build_members)

lemma build_all_named: "all_named (build_modulesById opts modules)"
  by (auto simp: all_named_def list_all_iff dest!: build_members)

lemma all_namedD:
  "all_named idx \<Longrightarrow> map_of idx k = Some m \<Longrightarrow> \<exists>nm. name m = Some nm \<and> nm \<noteq> []"
  by (auto simp: all_named_def list_all_iff truthy_def dest!: map_of_SomeD split: option.splits)

lemma displayName_named:
  assumes "all_named idx" and "k \<in> dom (map_of idx)"
  shows "\<exists>m. map_of idx k = Some m \<and> truthy (name m) \<and> normalizePath (name m) = Some (displayName idx k)"
proof -
  from assms(2) obtain m where m: "map_of idx k = Some m" by auto
  from all_namedD[OF assms(1) m] obtain nm where "name m = Some nm" "nm \<noteq> []" by blast
  with m show ?thesis by (auto simp: displayName_def normalizePath_def nullish_or_def truthy_def)
qed

section \<open>What a reason leads to\<close>

lemma key_consistentD:
  "key_consistent idx \<Longrightarrow> map_of idx k = Some m \<Longrightarrow> property_key (id_m m) = k"
  by (auto simp: key_consistent_def list_all_iff dest!: map_of_SomeD)

lemma reasonModule_SomeD:
  "reasonModule opts idx reason = Some (rid, rm) \<Longrightarrow>
     rid = property_key (id_m rm) \<and> truthy_id (id_m rm) \<and> truthy_id (moduleId reason) \<and>
     map_of idx (property_key (moduleId reason)) = Some rm \<and>
     \<not> (allowAsyncCycles opts \<and> is_dynamic_import (type reason))"
  by (auto simp: reasonModule_def split: option.splits if_splits)

lemma reasonModule_indexed:
  "key_consistent idx \<Longrightarrow> reasonModule opts idx reason = Some (rid, rm) \<Longrightarrow>
     map_of idx rid = Some rm"
  by (auto dest!: reasonModule_SomeD dest: key_consistentD)

lemma reasonModule_start:
  "reasonModule opts idx reason = Some (rid, rm) \<Longrightarrow> id_m rm = IdStr init \<Longrightarrow> rid = init"
  by (auto dest!: reasonModule_SomeD simp: property_key_def)

lemma reasonModule_named:
  assumes "reasonModule opts (build_modulesById opts' modules) reason = Some (rid, rm)"
  shows "truthy (name rm)"
proof -
  from reasonModule_indexed[OF build_key_consistent assms]
  have "map_of (build_modulesById opts' modules) rid = Some rm" .
  from all_namedD[OF build_all_named this] show ?thesis by (auto simp: truthy_def)
qed

lemma edge_targets_iff:
  "b \<in> set (edge_targets opts idx a) \<longleftrightarrow>
     (\<exists>m reason rm. map_of idx a = Some m \<and> reason \<in> set (nullish_or (reasons m) []) \<and>
        reasonModule opts idx reason = Some (b, rm))"
  by (force simp: edge_targets_def List.map_filter_def image_iff split: option.splits)

lemma edgeI:
  "map_of idx a = Some m \<Longrightarrow> reason \<in> set (nullish_or (reasons m) []) \<Longrightarrow>
   reasonModule opts idx reason = Some (b, rm) \<Longrightarrow> b \<noteq> a \<Longrightarrow> (a, b) \<in> edges opts idx"
  unfolding edges_def using edge_targets_iff[of b opts idx a] by auto

lemma edgeE:
  assumes "(a, b) \<in> edges opts idx"
  obtains m reason rm where "map_of idx a = Some m" "reason \<in> set (nullish_or (reasons m) [])"
    "reasonModule opts idx reason = Some (b, rm)" "b \<noteq> a"
  using assms unfolding edges_def using edge_targets_iff[of b opts idx a] by auto

lemma edge_target_indexed:
  assumes "key_consistent idx" and "(a, b) \<in> edges opts idx"
  shows "b \<in> dom (map_of idx)"
  using assms(2) by (elim edgeE) (auto dest: reasonModule_indexed[OF assms(1)])

lemma displayName_indexed:
  "map_of idx k = Some m \<Longrightarrow> displayName idx k = nullish_or (normalizePath (name m)) k"
  by (simp add: displayName_def)

section \<open>The visited set\<close>

lemma in_object_visited: "in_object k own \<longleftrightarrow> k \<in> visited own"
  by (simp add: in_object_def visited_def)

lemma visited_set_seen: "visited (set_seen k own) = insert k (visited own)"
  by (auto simp: visited_def set_seen_def Object_prototype_keys_def)

lemma visited_mono: "own \<subseteq> own' \<Longrightarrow> visited own \<subseteq> visited own'"
  by (auto simp: visited_def)

lemma visited_empty: "visited {} = set Object_prototype_keys"
  by (simp add: visited_def)

lemma in_object_set_seen: "in_object k (set_seen k own)"
  by (simp add: in_object_visited visited_set_seen)

lemma set_seen_grows: "own \<subseteq> set_seen k own"
  by (auto simp: set_seen_def)

section \<open>The steps of the loop\<close>

lemma loop_skipped:
  "reasonModule opts idx reason = None \<Longrightarrow>
     isCyclic_loop n opts init cur idx cname (reason # rest) seen =
     isCyclic_loop n opts init cur idx cname rest seen"
  by simp

lemma loop_closing:
  "reasonModule opts idx reason = Some (rid, rm) \<Longrightarrow> in_object rid seen \<Longrightarrow>
   id_m rm = IdStr init \<Longrightarrow> cur \<noteq> init \<Longrightarrow>
     isCyclic_loop n opts init cur idx cname (reason # rest) seen =
     Return (Some [nullish_or (normalizePath (name rm)) rid,
                   nullish_or (normalizePath cname) cur], seen)"
  by simp

lemma loop_visited:
  "reasonModule opts idx reason = Some (rid, rm) \<Longrightarrow> in_object rid seen \<Longrightarrow>
   \<not> (id_m rm = IdStr init \<and> cur \<noteq> init) \<Longrightarrow>
     isCyclic_loop n opts init cur idx cname (reason # rest) seen =
     isCyclic_loop n opts init cur idx cname rest seen"
  by auto

lemma loop_recursing:
  "reasonModule opts idx reason = Some (rid, rm) \<Longrightarrow> \<not> in_object rid seen \<Longrightarrow>
     isCyclic_loop n opts init cur idx cname (reason # rest) seen =
     (case isCyclic n opts init rid idx seen of
        Throw e \<Rightarrow> Throw e
      | Return (Some p, seen') \<Rightarrow> Return (Some (p @ [nullish_or (normalizePath cname) cur]), seen')
      | Return (None, seen') \<Rightarrow> isCyclic_loop n opts init cur idx cname rest seen')"
  by simp

section \<open>The visited set grows, and bounds the depth\<close>

lemma in_object_mono: "in_object k own \<Longrightarrow> own \<subseteq> own' \<Longrightarrow> in_object k own'"
  by (auto simp: in_object_def)

lemma seen_grows:
  shows "isCyclic n opts init cur idx seen = Return (r, seen') \<Longrightarrow>
           seen \<subseteq> seen' \<and> in_object cur seen'"
    and "isCyclic_loop n opts init cur idx cname rs seen = Return (r, seen') \<Longrightarrow> seen \<subseteq> seen'"
proof (induction n opts init cur idx seen and n opts init cur idx cname rs seen
       arbitrary: r seen' and r seen' rule: isCyclic_isCyclic_loop.induct)
  case (1 opts init cur idx seen)
  then show ?case by simp
next
  case (2 n opts init cur idx seen)
  show ?case
  proof (cases "map_of idx cur")
    case None
    with "2.prems" have "seen' = set_seen cur seen" by (simp add: Let_def split: if_splits)
    then show ?thesis using set_seen_grows[of seen cur] in_object_set_seen[of cur seen] by simp
  next
    case (Some m)
    with "2.prems" have "isCyclic_loop n opts init cur idx
        (case map_of idx cur of None \<Rightarrow> None | Some m \<Rightarrow> name m)
        (nullish_or (reasons m) []) (set_seen cur seen) = Return (r, seen')"
      by (simp add: Let_def)
    from "2.IH"[OF refl refl Some this] have "set_seen cur seen \<subseteq> seen'" .
    then show ?thesis
      using set_seen_grows[of seen cur] in_object_mono[OF in_object_set_seen[of cur seen]] by blast
  qed
next
  case (3 n opts init cur idx cname seen)
  then show ?case by simp
next
  case (4 n opts init cur idx cname reason rest seen)
  show ?case
  proof (cases "reasonModule opts idx reason")
    case None
    with "4.prems" have "isCyclic_loop n opts init cur idx cname rest seen = Return (r, seen')"
      by simp
    from "4.IH"(1)[OF None this] show ?thesis .
  next
    case (Some a)
    obtain rid rm where a: "a = (rid, rm)" by (cases a)
    show ?thesis
    proof (cases "in_object rid seen")
      case True
      show ?thesis
      proof (cases "id_m rm = IdStr init \<and> cur \<noteq> init")
        case closing: True
        from "4.prems" show ?thesis
          by (simp only: loop_closing[OF Some[unfolded a] True closing[THEN conjunct1]
                closing[THEN conjunct2]]) simp
      next
        case False
        from "4.prems"
        have "isCyclic_loop n opts init cur idx cname rest seen = Return (r, seen')"
          by (simp only: loop_visited[OF Some[unfolded a] True False])
        from "4.IH"(2)[OF Some a[symmetric] True False this] show ?thesis .
      qed
    next
      case False
      with "4.prems" Some a obtain r1 s1 where
        c: "isCyclic n opts init rid idx seen = Return (r1, s1)"
        by (auto split: outcome.splits)
      from "4.IH"(3)[OF Some a[symmetric] False c] have s1: "seen \<subseteq> s1" by simp
      show ?thesis
      proof (cases r1)
        case None
        with "4.prems" Some a False c
        have "isCyclic_loop n opts init cur idx cname rest s1 = Return (r, seen')" by simp
        from "4.IH"(4)[OF Some a[symmetric] False c _ None this] s1 show ?thesis by auto
      next
        case (Some p)
        with "4.prems" \<open>reasonModule opts idx reason = Some a\<close> a False c s1 show ?thesis by auto
      qed
    qed
  qed
qed

lemma visited_grows:
  shows "isCyclic n opts init cur idx seen = Return (r, seen') \<Longrightarrow>
           insert cur (visited seen) \<subseteq> visited seen'"
    and "isCyclic_loop n opts init cur idx cname rs seen = Return (r, seen') \<Longrightarrow>
           visited seen \<subseteq> visited seen'"
proof -
  assume "isCyclic n opts init cur idx seen = Return (r, seen')"
  from seen_grows(1)[OF this] have "seen \<subseteq> seen'" "cur \<in> visited seen'"
    by (simp_all add: in_object_visited)
  with visited_mono[of seen seen'] show "insert cur (visited seen) \<subseteq> visited seen'" by simp
next
  assume "isCyclic_loop n opts init cur idx cname rs seen = Return (r, seen')"
  from seen_grows(2)[OF this] show "visited seen \<subseteq> visited seen'" by (rule visited_mono)
qed



lemma stack_suffices:
  shows "0 < n \<Longrightarrow>
         (currentModule \<in> dom (map_of idx) \<Longrightarrow>
            card (dom (map_of idx) - insert currentModule (visited seen)) + 2 \<le> n) \<Longrightarrow>
         isCyclic n opts init currentModule idx seen \<noteq> Throw RangeError"
    and "card (dom (map_of idx) - visited seen) + 1 \<le> n \<Longrightarrow>
         isCyclic_loop n opts init currentModule idx cname rs seen \<noteq> Throw RangeError"
proof (induction n opts init currentModule idx seen and n opts init currentModule idx cname rs seen
       rule: isCyclic_isCyclic_loop.induct)
  case (1 opts init cur idx seen)
  then show ?case by simp
next
  case (2 n opts init cur idx seen)
  show ?case
  proof (cases "map_of idx cur")
    case None
    then show ?thesis by simp
  next
    case (Some m)
    then have "cur \<in> dom (map_of idx)" by auto
    from "2.prems"(2)[OF this]
    have "card (dom (map_of idx) - visited (set_seen cur seen)) + 1 \<le> n"
      by (simp add: visited_set_seen)
    from "2.IH"[OF refl refl Some this] Some show ?thesis by simp
  qed
next
  case (3 n opts init cur idx cname seen)
  then show ?case by simp
next
  case (4 n opts init currentModule idx cname reason rest seen)
  show ?case
  proof (cases "reasonModule opts idx reason")
    case None
    from "4.IH"(1)[OF None "4.prems"] None show ?thesis by simp
  next
    case (Some a)
    obtain rid rm where a: "a = (rid, rm)" by (cases a)
    show ?thesis
    proof (cases "in_object rid seen")
      case True
      show ?thesis
      proof (cases "id_m rm = IdStr init \<and> currentModule \<noteq> init")
        case closing: True
        show ?thesis
          by (simp only: loop_closing[OF Some[unfolded a] True closing[THEN conjunct1]
                closing[THEN conjunct2]]) simp
      next
        case False
        from "4.IH"(2)[OF Some a[symmetric] True False "4.prems"] show ?thesis
          by (simp only: loop_visited[OF Some[unfolded a] True False] not_False_eq_True)
      qed
    next
      case False
      then have nin: "rid \<notin> visited seen" by (simp add: in_object_visited)
      have pos: "0 < n" using "4.prems" by simp
      have bound: "card (dom (map_of idx) - insert rid (visited seen)) + 2 \<le> n"
        if "rid \<in> dom (map_of idx)"
      proof -
        from that nin have "rid \<in> dom (map_of idx) - visited seen" by simp
        then have "card (dom (map_of idx) - visited seen - {rid}) < card (dom (map_of idx) - visited seen)"
          by (intro card_Diff1_less) (auto intro: finite_dom_idx)
        moreover have "dom (map_of idx) - visited seen - {rid} = dom (map_of idx) - insert rid (visited seen)"
          by auto
        ultimately show ?thesis using "4.prems" by simp
      qed
      from "4.IH"(3)[OF Some a[symmetric] False pos bound]
      have nf: "isCyclic n opts init rid idx seen \<noteq> Throw RangeError" by simp
      show ?thesis
      proof (cases "isCyclic n opts init rid idx seen")
        case (Throw e)
        with nf Some a False show ?thesis by simp
      next
        case (Return res)
        obtain r1 s1 where res: "res = (r1, s1)" by (cases res)
        show ?thesis
        proof (cases r1)
          case None
          from visited_grows(1)[OF Return[unfolded res]] have "visited seen \<subseteq> visited s1" by auto
          then have "card (dom (map_of idx) - visited s1) \<le> card (dom (map_of idx) - visited seen)"
            by (intro card_mono) (auto intro: finite_dom_idx)
          with "4.prems" have "card (dom (map_of idx) - visited s1) + 1 \<le> n" by simp
          from "4.IH"(4)[OF \<open>reasonModule opts idx reason = Some a\<close> a[symmetric] False Return[unfolded res] _ None this]
          show ?thesis using Some a False Return res None by simp
        next
          case (Some p)
          with \<open>reasonModule opts idx reason = Some a\<close> a False Return res show ?thesis by simp
        qed
      qed
    qed
  qed
qed

lemma only_RangeError:
  shows "key_consistent idx \<Longrightarrow> currentModule \<in> dom (map_of idx) \<Longrightarrow>
         isCyclic n opts init currentModule idx seen = Throw e \<Longrightarrow> e = RangeError"
    and "key_consistent idx \<Longrightarrow>
         isCyclic_loop n opts init currentModule idx cname rs seen = Throw e \<Longrightarrow> e = RangeError"
proof (induction n opts init currentModule idx seen and n opts init currentModule idx cname rs seen
       rule: isCyclic_isCyclic_loop.induct)
  case (1 opts init cur idx seen)
  then show ?case by simp
next
  case (2 n opts init cur idx seen)
  then show ?case by (auto simp: Let_def split: option.splits)
next
  case (3 n opts init cur idx cname seen)
  then show ?case by simp
next
  case (4 n opts init cur idx cname reason rest seen)
  show ?case
  proof (cases "reasonModule opts idx reason")
    case None
    with "4.prems"(2) have "isCyclic_loop n opts init cur idx cname rest seen = Throw e" by simp
    from "4.IH"(1)[OF None "4.prems"(1) this] show ?thesis .
  next
    case (Some a)
    obtain rid rm where a: "a = (rid, rm)" by (cases a)
    from reasonModule_indexed[OF "4.prems"(1) Some[unfolded a]]
    have dom: "rid \<in> dom (map_of idx)" by auto
    show ?thesis
    proof (cases "in_object rid seen")
      case True
      show ?thesis
      proof (cases "id_m rm = IdStr init \<and> cur \<noteq> init")
        case closing: True
        from "4.prems"(2) show ?thesis
          by (simp only: loop_closing[OF Some[unfolded a] True closing[THEN conjunct1]
                closing[THEN conjunct2]]) simp
      next
        case False
        from "4.prems"(2)
        have "isCyclic_loop n opts init cur idx cname rest seen = Throw e"
          by (simp only: loop_visited[OF Some[unfolded a] True False])
        from "4.IH"(2)[OF Some a[symmetric] True False "4.prems"(1) this] show ?thesis .
      qed
    next
      case False
      note IH3 = "4.IH"(3)[OF Some a[symmetric] False "4.prems"(1) dom]
      show ?thesis
      proof (cases "isCyclic n opts init rid idx seen")
        case (Throw e')
        with "4.prems"(2) Some a False have "e' = e" by simp
        with IH3 Throw show ?thesis by simp
      next
        case (Return res)
        obtain r1 s1 where res: "res = (r1, s1)" by (cases res)
        show ?thesis
        proof (cases r1)
          case None
          with "4.prems"(2) Some a False Return res
          have "isCyclic_loop n opts init cur idx cname rest s1 = Throw e" by simp
          from "4.IH"(4)[OF \<open>reasonModule opts idx reason = Some a\<close> a[symmetric] False Return[unfolded res None] refl refl "4.prems"(1) this]
          show ?thesis .
        next
          case (Some p)
          with "4.prems"(2) \<open>reasonModule opts idx reason = Some a\<close> a False Return res
          show ?thesis by simp
        qed
      qed
    qed
  qed
qed

section \<open>The shape of a returned path\<close>

lemma path_shape:
  shows "key_consistent idx \<Longrightarrow>
         isCyclic n opts init cur idx seen = Return (Some p, s') \<Longrightarrow>
         \<exists>ks. p = map (displayName idx) (init # ks) \<and> ks \<noteq> [] \<and> last ks = cur \<and>
              successively (\<lambda>a b. (b, a) \<in> edges opts idx) (init # ks) \<and> distinct ks \<and>
              set (butlast ks) \<inter> insert cur (visited seen) = {} \<and> set ks \<subseteq> dom (map_of idx)"
    and "key_consistent idx \<Longrightarrow> cur \<in> visited seen \<Longrightarrow> map_of idx cur = Some m \<Longrightarrow>
         cname = name m \<Longrightarrow> set rs \<subseteq> set (nullish_or (reasons m) []) \<Longrightarrow>
         isCyclic_loop n opts init cur idx cname rs seen = Return (Some p, s') \<Longrightarrow>
         \<exists>ks. p = map (displayName idx) (init # ks) \<and> ks \<noteq> [] \<and> last ks = cur \<and>
              successively (\<lambda>a b. (b, a) \<in> edges opts idx) (init # ks) \<and> distinct ks \<and>
              set (butlast ks) \<inter> visited seen = {} \<and> set ks \<subseteq> dom (map_of idx)"
proof (induction n opts init cur idx seen and n opts init cur idx cname rs seen
       arbitrary: p s' and m p s' rule: isCyclic_isCyclic_loop.induct)
  case (1 opts init cur idx seen)
  then show ?case by simp
next
  case (2 n opts init cur idx seen)
  from "2.prems"(2) obtain m where m: "map_of idx cur = Some m"
    by (cases "map_of idx cur") (auto simp: Let_def split: if_splits)
  with "2.prems"(2) have loop: "isCyclic_loop n opts init cur idx (name m)
      (nullish_or (reasons m) []) (set_seen cur seen) = Return (Some p, s')"
    by (simp add: Let_def)
  have c: "cur \<in> visited (set_seen cur seen)" by (simp add: visited_set_seen)
  have "\<exists>ks. p = map (displayName idx) (init # ks) \<and> ks \<noteq> [] \<and> last ks = cur \<and>
              successively (\<lambda>a b. (b, a) \<in> edges opts idx) (init # ks) \<and> distinct ks \<and>
              set (butlast ks) \<inter> visited (set_seen cur seen) = {} \<and> set ks \<subseteq> dom (map_of idx)"
    by (rule "2.IH"[OF refl refl m "2.prems"(1) c m]) (use m loop in auto)
  then show ?case by (simp only: visited_set_seen)
next
  case (3 n opts init cur idx cname seen)
  then show ?case by simp
next
  case (4 n opts init cur idx cname reason rest seen)
  have rest: "set rest \<subseteq> set (nullish_or (reasons m) [])" and
       rin: "reason \<in> set (nullish_or (reasons m) [])" using "4.prems"(5) by auto
  note kc = "4.prems"(1) and cur = "4.prems"(2) and m = "4.prems"(3) and cn = "4.prems"(4)
  show ?case
  proof (cases "reasonModule opts idx reason")
    case None
    with "4.prems"(6) have "isCyclic_loop n opts init cur idx cname rest seen = Return (Some p, s')"
      by simp
    from "4.IH"(1)[OF None kc cur m cn rest this] show ?thesis .
  next
    case (Some a)
    obtain rid rm where a: "a = (rid, rm)" by (cases a)
    note rM = Some[unfolded a]
    from reasonModule_indexed[OF kc rM] have ridx: "map_of idx rid = Some rm" .
    show ?thesis
    proof (cases "in_object rid seen")
      case True
      show ?thesis
      proof (cases "id_m rm = IdStr init \<and> cur \<noteq> init")
        case closing: True
        from "4.prems"(6)
        have p: "p = [nullish_or (normalizePath (name rm)) rid,
                      nullish_or (normalizePath cname) cur]"
          by (simp only: loop_closing[OF rM True closing[THEN conjunct1] closing[THEN conjunct2]])
             simp
        from reasonModule_start[OF rM closing[THEN conjunct1]] have ri: "rid = init" .
        have e: "(cur, init) \<in> edges opts idx"
          using edgeI[OF m rin rM] closing ri by auto
        have "p = map (displayName idx) (init # [cur])"
          using p ri ridx m cn by (simp add: displayName_indexed)
        with e m show ?thesis by (intro exI[of _ "[cur]"]) auto
      next
        case False
        from "4.prems"(6)
        have "isCyclic_loop n opts init cur idx cname rest seen = Return (Some p, s')"
          by (simp only: loop_visited[OF rM True False])
        from "4.IH"(2)[OF Some a[symmetric] True False kc cur m cn rest this] show ?thesis .
      qed
    next
      case False
      then have nin: "rid \<notin> visited seen" by (simp add: in_object_visited)
      with cur have ne: "rid \<noteq> cur" by auto
      have e: "(cur, rid) \<in> edges opts idx" using edgeI[OF m rin rM ne] .
      note L = loop_recursing[OF rM False]
      show ?thesis
      proof (cases "isCyclic n opts init rid idx seen")
        case (Throw e')
        with "4.prems"(6)[unfolded L] show ?thesis by simp
      next
        case (Return res)
        obtain r1 s1 where res: "res = (r1, s1)" by (cases res)
        note call = Return[unfolded res]
        show ?thesis
        proof (cases r1)
          case None
          with "4.prems"(6)[unfolded L] call
          have l: "isCyclic_loop n opts init cur idx cname rest s1 = Return (Some p, s')"
            by simp
          from visited_grows(1)[OF call] have sub: "visited seen \<subseteq> visited s1" by auto
          with cur have "cur \<in> visited s1" by auto
          from "4.IH"(4)[OF Some a[symmetric] False call[unfolded None] refl refl kc this m cn rest l]
          obtain ks where "p = map (displayName idx) (init # ks)" "ks \<noteq> []" "last ks = cur"
              "successively (\<lambda>a b. (b, a) \<in> edges opts idx) (init # ks)" "distinct ks"
              "set (butlast ks) \<inter> visited s1 = {}" "set ks \<subseteq> dom (map_of idx)" by blast
          with sub show ?thesis by (intro exI[of _ ks]) auto
        next
          case (Some p1)
          with "4.prems"(6)[unfolded L] call
          have p: "p = p1 @ [nullish_or (normalizePath cname) cur]" by simp
          from "4.IH"(3)[OF \<open>reasonModule opts idx reason = Some a\<close> a[symmetric] False kc call[unfolded Some]]
          obtain ks where ks: "p1 = map (displayName idx) (init # ks)" "ks \<noteq> []" "last ks = rid"
              "successively (\<lambda>a b. (b, a) \<in> edges opts idx) (init # ks)" "distinct ks"
              "set (butlast ks) \<inter> insert rid (visited seen) = {}" "set ks \<subseteq> dom (map_of idx)"
            by blast
          have 1: "p = map (displayName idx) (init # (ks @ [cur]))"
            using p ks(1) m cn by (simp add: displayName_indexed)
          have 2: "successively (\<lambda>a b. (b, a) \<in> edges opts idx) (init # (ks @ [cur]))"
            using ks(2,3,4) e successively_append_iff[of "\<lambda>a b. (b, a) \<in> edges opts idx" "init # ks" "[cur]"]
            by simp
          have "set ks = set (butlast ks @ [last ks])" using ks(2) by simp
          then have "set ks = insert rid (set (butlast ks))" using ks(3) by simp
          then have 3: "set ks \<inter> visited seen = {}" using ks(6) nin by auto
          with cur have 4: "cur \<notin> set ks" by auto
          show ?thesis using 1 2 3 4 ks(5,7) m
            by (intro exI[of _ "ks @ [cur]"]) auto
        qed
      qed
    qed
  qed
qed

lemma successively_trancl:
  "successively (\<lambda>a b. (b, a) \<in> E) (x # xs) \<Longrightarrow> xs \<noteq> [] \<Longrightarrow> (last xs, x) \<in> E\<^sup>+"
proof (induction xs arbitrary: x)
  case Nil
  then show ?case by simp
next
  case (Cons y ys)
  show ?case
  proof (cases ys)
    case Nil
    with Cons.prems show ?thesis by auto
  next
    case (Cons z zs)
    with Cons.prems Cons.IH[of y] have "(last ys, y) \<in> E\<^sup>+" "(y, x) \<in> E" by auto
    then show ?thesis using Cons by (auto intro: trancl_into_trancl)
  qed
qed

lemma closes_at_append:
  "closes_at opts idx init p \<Longrightarrow> 2 \<le> length p \<Longrightarrow> closes_at opts idx init (p @ q)"
  unfolding closes_at_def by (cases p) (auto simp: nth_append)

lemma path_head:
  shows "isCyclic n opts init cur idx seen = Return (Some p, s') \<Longrightarrow>
         2 \<le> length p \<and> closes_at opts idx init p"
    and "map_of idx cur = Some m \<Longrightarrow> cname = name m \<Longrightarrow>
         set rs \<subseteq> set (nullish_or (reasons m) []) \<Longrightarrow>
         isCyclic_loop n opts init cur idx cname rs seen = Return (Some p, s') \<Longrightarrow>
         2 \<le> length p \<and> closes_at opts idx init p"
proof (induction n opts init cur idx seen and n opts init cur idx cname rs seen
       arbitrary: p s' and m p s' rule: isCyclic_isCyclic_loop.induct)
  case (1 opts init cur idx seen)
  then show ?case by simp
next
  case (2 n opts init cur idx seen)
  from "2.prems" obtain m where m: "map_of idx cur = Some m"
    by (cases "map_of idx cur") (auto simp: Let_def split: if_splits)
  with "2.prems" have loop: "isCyclic_loop n opts init cur idx (name m)
      (nullish_or (reasons m) []) (set_seen cur seen) = Return (Some p, s')"
    by (simp add: Let_def)
  show ?case
    by (rule "2.IH"[OF refl refl m m]) (use m loop in auto)
next
  case (3 n opts init cur idx cname seen)
  then show ?case by simp
next
  case (4 n opts init cur idx cname reason rest seen)
  have rest: "set rest \<subseteq> set (nullish_or (reasons m) [])" and
       rin: "reason \<in> set (nullish_or (reasons m) [])" using "4.prems"(3) by auto
  note m = "4.prems"(1) and cn = "4.prems"(2)
  show ?case
  proof (cases "reasonModule opts idx reason")
    case None
    with "4.prems"(4) have "isCyclic_loop n opts init cur idx cname rest seen = Return (Some p, s')"
      by simp
    from "4.IH"(1)[OF None m cn rest this] show ?thesis .
  next
    case (Some a)
    obtain rid rm where a: "a = (rid, rm)" by (cases a)
    note rM = Some[unfolded a]
    show ?thesis
    proof (cases "in_object rid seen")
      case True
      show ?thesis
      proof (cases "id_m rm = IdStr init \<and> cur \<noteq> init")
        case closing: True
        from reasonModule_start[OF rM closing[THEN conjunct1]] have ri: "rid = init" .
        from "4.prems"(4)
        have "p = [nullish_or (normalizePath (name rm)) rid,
                   nullish_or (normalizePath cname) cur]"
          by (simp only: loop_closing[OF rM True closing[THEN conjunct1] closing[THEN conjunct2]])
             simp
        with ri cn have p: "p = [nullish_or (normalizePath (name rm)) init,
                      nullish_or (normalizePath (name m)) cur]" by simp
        with m rin rM ri closing have "closes_at opts idx init p"
          unfolding closes_at_def
          by (intro exI[of _ cur] exI[of _ m] exI[of _ reason] exI[of _ rm]) simp
        with p show ?thesis by simp
      next
        case False
        from "4.prems"(4)
        have "isCyclic_loop n opts init cur idx cname rest seen = Return (Some p, s')"
          by (simp only: loop_visited[OF rM True False])
        from "4.IH"(2)[OF Some a[symmetric] True False m cn rest this] show ?thesis .
      qed
    next
      case False
      note L = loop_recursing[OF rM False]
      show ?thesis
      proof (cases "isCyclic n opts init rid idx seen")
        case (Throw e')
        with "4.prems"(4)[unfolded L] show ?thesis by simp
      next
        case (Return res)
        obtain r1 s1 where res: "res = (r1, s1)" by (cases res)
        note call = Return[unfolded res]
        show ?thesis
        proof (cases r1)
          case None
          with "4.prems"(4)[unfolded L] call
          have l: "isCyclic_loop n opts init cur idx cname rest s1 = Return (Some p, s')"
            by simp
          from "4.IH"(4)[OF Some a[symmetric] False call[unfolded None] refl refl m cn rest l]
          show ?thesis .
        next
          case (Some p1)
          with "4.prems"(4)[unfolded L] call
          have p: "p = p1 @ [nullish_or (normalizePath cname) cur]" by simp
          from "4.IH"(3)[OF \<open>reasonModule opts idx reason = Some a\<close> a[symmetric] False call[unfolded Some]]
          have "2 \<le> length p1" "closes_at opts idx init p1" by simp_all
          with p closes_at_append[of opts idx init p1] show ?thesis by simp
        qed
      qed
    qed
  qed
qed

section \<open>A search that finds nothing has explored everything\<close>

lemma no_inherited_key_butD:
  "no_inherited_key_but k idx \<Longrightarrow> map_of idx j = Some m \<Longrightarrow> j \<noteq> k \<Longrightarrow>
     j \<notin> set Object_prototype_keys"
  by (auto simp: no_inherited_key_but_def list_all_iff dest!: map_of_SomeD)

lemma has_string_idD:
  "has_string_id idx k \<Longrightarrow> map_of idx k = Some m \<Longrightarrow> id_m m = IdStr k"
  by (simp add: has_string_id_def)

lemma closed_in_mono:
  "closed_in opts idx init S X \<Longrightarrow> S \<subseteq> S' \<Longrightarrow> X' \<subseteq> X \<Longrightarrow> closed_in opts idx init S' X'"
  unfolding closed_in_def by blast

lemma closed_in_Un:
  "closed_in opts idx init S X \<Longrightarrow> closed_in opts idx init S Y \<Longrightarrow> Z \<subseteq> X \<union> Y \<Longrightarrow>
     closed_in opts idx init S Z"
  unfolding closed_in_def by blast

lemma closed_in_unindexed:
  "map_of idx cur = None \<Longrightarrow> closed_in opts idx init S {cur}"
  by (simp add: closed_in_def edges_def edge_targets_def)

lemma reasons_done_Nil: "reasons_done opts idx init cur S []"
  by (simp add: reasons_done_def)

lemma reasons_done_skip:
  "reasonModule opts idx r = None \<Longrightarrow> reasons_done opts idx init cur S rs \<Longrightarrow>
     reasons_done opts idx init cur S (r # rs)"
  by (simp add: reasons_done_def)

lemma reasons_done_step:
  "reasonModule opts idx r = Some (rid, rm) \<Longrightarrow> (rid \<noteq> cur \<Longrightarrow> rid \<in> S \<and> rid \<noteq> init) \<Longrightarrow>
     reasons_done opts idx init cur S rs \<Longrightarrow> reasons_done opts idx init cur S (r # rs)"
  by (simp add: reasons_done_def)

lemma reasons_done_closed:
  assumes m: "map_of idx cur = Some m"
    and rd: "reasons_done opts idx init cur S (nullish_or (reasons m) [])"
  shows "closed_in opts idx init S {cur}"
  unfolding closed_in_def
proof (intro ballI allI impI)
  fix x y assume "x \<in> {cur}" and xy: "(x, y) \<in> edges opts idx"
  then have "(cur, y) \<in> edges opts idx" by simp
  then obtain m' reason rm where e: "map_of idx cur = Some m'"
      "reason \<in> set (nullish_or (reasons m') [])"
      "reasonModule opts idx reason = Some (y, rm)" "y \<noteq> cur" by (rule edgeE)
  from e(1) m have "m' = m" by simp
  with e(2) have "reason \<in> set (nullish_or (reasons m) [])" by simp
  with rd e(3,4) show "y \<in> S \<and> y \<noteq> init" unfolding reasons_done_def by blast
qed

lemma closure:
  shows "key_consistent idx \<Longrightarrow> has_string_id idx init \<Longrightarrow> init \<in> insert cur (visited seen) \<Longrightarrow>
         isCyclic n opts init cur idx seen = Return (None, s') \<Longrightarrow>
         closed_in opts idx init (visited s') (insert cur (visited s' - visited seen))"
    and "key_consistent idx \<Longrightarrow> has_string_id idx init \<Longrightarrow> init \<in> visited seen \<Longrightarrow>
         cur \<in> visited seen \<Longrightarrow>
         isCyclic_loop n opts init cur idx cname rs seen = Return (None, s') \<Longrightarrow>
         closed_in opts idx init (visited s') (visited s' - visited seen) \<and>
         reasons_done opts idx init cur (visited s') rs"
proof (induction n opts init cur idx seen and n opts init cur idx cname rs seen
       arbitrary: s' and s' rule: isCyclic_isCyclic_loop.induct)
  case (1 opts init cur idx seen)
  then show ?case by simp
next
  case (2 n opts init cur idx seen)
  show ?case
  proof (cases "map_of idx cur")
    case None
    with "2.prems"(4) have s': "visited s' = insert cur (visited seen)"
      by (auto simp: Let_def visited_set_seen split: if_splits)
    have "closed_in opts idx init (visited s') {cur}" by (rule closed_in_unindexed[OF None])
    then show ?thesis by (rule closed_in_mono) (use s' in auto)
  next
    case (Some m)
    note m = Some
    with "2.prems"(4) have loop: "isCyclic_loop n opts init cur idx
        (case map_of idx cur of None \<Rightarrow> None | Some m \<Rightarrow> name m)
        (nullish_or (reasons m) []) (set_seen cur seen) = Return (None, s')"
      by (simp add: Let_def)
    have i: "cur \<in> visited (set_seen cur seen)" by (simp add: visited_set_seen)
    have i': "init \<in> visited (set_seen cur seen)"
      using "2.prems"(3) by (simp add: visited_set_seen)
    note IH = "2.IH"[OF refl refl m "2.prems"(1,2) i' i loop]
    from reasons_done_closed[OF m IH[THEN conjunct2]]
    have c: "closed_in opts idx init (visited s') {cur}" .
    show ?thesis
      by (rule closed_in_Un[OF IH[THEN conjunct1] c]) (auto simp: visited_set_seen)
  qed
next
  case (3 n opts init cur idx cname seen)
  then show ?case by (simp add: closed_in_def reasons_done_Nil)
next
  case (4 n opts init cur idx cname reason rest seen)
  note kc = "4.prems"(1) and hs = "4.prems"(2) and init = "4.prems"(3) and cur = "4.prems"(4)
  show ?case
  proof (cases "reasonModule opts idx reason")
    case None
    with "4.prems"(5) have "isCyclic_loop n opts init cur idx cname rest seen = Return (None, s')"
      by simp
    note IH = "4.IH"(1)[OF None kc hs init cur this]
    show ?thesis using IH[THEN conjunct1] reasons_done_skip[OF None IH[THEN conjunct2]] by simp
  next
    case (Some a)
    obtain rid rm where a: "a = (rid, rm)" by (cases a)
    note rM = Some[unfolded a]
    from reasonModule_indexed[OF kc rM] have ridx: "map_of idx rid = Some rm" .
    show ?thesis
    proof (cases "in_object rid seen")
      case True
      have nc: "\<not> (id_m rm = IdStr init \<and> cur \<noteq> init)"
      proof
        assume c: "id_m rm = IdStr init \<and> cur \<noteq> init"
        from "4.prems"(5) show False
          by (simp only: loop_closing[OF rM True c[THEN conjunct1] c[THEN conjunct2]]) simp
      qed
      from "4.prems"(5)
      have l: "isCyclic_loop n opts init cur idx cname rest seen = Return (None, s')"
        by (simp only: loop_visited[OF rM True nc])
      note IH = "4.IH"(2)[OF Some a[symmetric] True nc kc hs init cur l]
      from visited_grows(2)[OF l] have "visited seen \<subseteq> visited s'" .
      moreover from True have "rid \<in> visited seen" by (simp add: in_object_visited)
      moreover have "rid \<noteq> init" if "rid \<noteq> cur"
      proof
        assume "rid = init"
        with ridx has_string_idD[OF hs] have "id_m rm = IdStr init" by simp
        with nc have "cur = init" by simp
        with \<open>rid = init\<close> that show False by simp
      qed
      ultimately have "rid \<noteq> cur \<Longrightarrow> rid \<in> visited s' \<and> rid \<noteq> init" by blast
      from reasons_done_step[OF rM this IH[THEN conjunct2]] IH[THEN conjunct1]
      show ?thesis by simp
    next
      case False
      then have nin: "rid \<notin> visited seen" by (simp add: in_object_visited)
      note L = loop_recursing[OF rM False]
      show ?thesis
      proof (cases "isCyclic n opts init rid idx seen")
        case (Throw e')
        with "4.prems"(5)[unfolded L] show ?thesis by simp
      next
        case (Return res)
        obtain r1 s1 where res: "res = (r1, s1)" by (cases res)
        note call = Return[unfolded res]
        show ?thesis
        proof (cases r1)
          case None
          with "4.prems"(5)[unfolded L] call
          have l: "isCyclic_loop n opts init cur idx cname rest s1 = Return (None, s')"
            by simp
          from visited_grows(1)[OF call] have sub: "insert rid (visited seen) \<subseteq> visited s1" .
          from visited_grows(2)[OF l] have sub2: "visited s1 \<subseteq> visited s'" .
          have i1: "init \<in> visited s1" and c1: "cur \<in> visited s1" using sub init cur by auto
          have i2: "init \<in> insert rid (visited seen)" using init by simp
          note A = "4.IH"(3)[OF Some a[symmetric] False kc hs i2 call[unfolded None]]
          note B = "4.IH"(4)[OF Some a[symmetric] False call[unfolded None] refl refl kc hs i1 c1 l]
          have A': "closed_in opts idx init (visited s') (visited s1 - visited seen)"
            by (rule closed_in_mono[OF A sub2]) blast
          have C: "closed_in opts idx init (visited s') (visited s' - visited seen)"
            by (rule closed_in_Un[OF A' B[THEN conjunct1]]) blast
          have "rid \<noteq> cur \<Longrightarrow> rid \<in> visited s' \<and> rid \<noteq> init" using sub sub2 nin init by auto
          from reasons_done_step[OF rM this B[THEN conjunct2]] C
          show ?thesis by simp
        next
          case (Some p1)
          with "4.prems"(5)[unfolded L] call show ?thesis by simp
        qed
      qed
    qed
  qed
qed

section \<open>Searches that start at a module of the index\<close>

lemma top_enough_stack:
  assumes "m \<in> dom (map_of idx)" and "length idx < n"
  shows "isCyclic n opts m m idx {} \<noteq> Throw RangeError"
proof (rule stack_suffices(1))
  show "0 < n" using assms(2) by simp
  assume "m \<in> dom (map_of idx)"
  have "card (dom (map_of idx) - insert m (visited {})) \<le> card (dom (map_of idx) - {m})"
    by (rule card_mono) (auto intro: finite_dom_idx)
  moreover have "card (dom (map_of idx) - {m}) < card (dom (map_of idx))"
    using assms(1) by (intro card_Diff1_less) (auto intro: finite_dom_idx)
  ultimately show "card (dom (map_of idx) - insert m (visited {})) + 2 \<le> n"
    using card_dom_le_length[of idx] assms(2) by simp
qed

lemma top_returns:
  assumes kc: "key_consistent idx" and m: "m \<in> dom (map_of idx)" and n: "length idx < n"
  shows "\<exists>r s. isCyclic n opts m m idx {} = Return (r, s)"
proof (cases "isCyclic n opts m m idx {}")
  case (Throw e)
  from only_RangeError(1)[OF kc m Throw] Throw top_enough_stack[OF m n, where opts = opts]
  show ?thesis by simp
next
  case (Return res)
  then show ?thesis by (cases res) simp
qed


lemma isCyclic_unindexed_throws:
  "map_of idx cur = None \<Longrightarrow> cur \<notin> set Object_prototype_keys \<Longrightarrow>
     isCyclic (Suc n) opts init cur idx seen = Throw TypeError"
  by simp

lemma isCyclic_sound:
  assumes kc: "key_consistent idx" and r: "isCyclic n opts m m idx {} = Return (Some p, s')"
  shows "(m, m) \<in> (edges opts idx)\<^sup>+"
proof -
  from path_shape(1)[OF kc r] obtain ks where ks: "ks \<noteq> []" "last ks = m"
    "successively (\<lambda>a b. (b, a) \<in> edges opts idx) (m # ks)" by blast
  from successively_trancl[OF ks(3,1)] ks(2) show ?thesis by simp
qed

lemma closed_in_reach:
  assumes c: "closed_in opts idx init S X" and x: "x \<in> X"
    and stays: "\<And>a b. a \<in> X \<Longrightarrow> (a, b) \<in> edges opts idx \<Longrightarrow> b \<in> S \<Longrightarrow> b \<noteq> init \<Longrightarrow> b \<in> X"
    and r: "(x, y) \<in> (edges opts idx)\<^sup>+"
  shows "y \<in> X \<and> y \<noteq> init"
  using r
proof (induction rule: trancl_induct)
  case (base y)
  with c x stays show ?case unfolding closed_in_def by blast
next
  case (step y z)
  with c stays show ?case unfolding closed_in_def by blast
qed

lemma isCyclic_complete:
  assumes kc: "key_consistent idx" and hs: "has_string_id idx m"
    and np: "no_inherited_key_but m idx"
    and r: "isCyclic n opts m m idx {} = Return (None, s')"
  shows "(m, m) \<notin> (edges opts idx)\<^sup>+"
proof
  assume cyc: "(m, m) \<in> (edges opts idx)\<^sup>+"
  let ?X = "insert m (visited s' - visited {})"
  have "m \<in> insert m (visited {})" by simp
  from closure(1)[OF kc hs this r] have c: "closed_in opts idx m (visited s') ?X" .
  have stays: "b \<in> ?X" if "(a, b) \<in> edges opts idx" "b \<in> visited s'" "b \<noteq> m" for a b
  proof -
    from edge_target_indexed[OF kc that(1)] obtain bm where "map_of idx b = Some bm" by auto
    from no_inherited_key_butD[OF np this that(3)] that(2) show ?thesis
      by (simp add: visited_empty)
  qed
  have "m \<in> ?X \<and> m \<noteq> m"
    by (rule closed_in_reach[OF c _ _ cyc]) (use stays in auto)
  then show False by simp
qed

text \<open>
  On an index whose modules sit under the keys of their own identifiers, a search from a
  module whose identifier is a string finds a path exactly when its start lies on a cycle of
  \<open>edges\<close>, provided no other key of the index is a name inherited from
  \<^verbatim>\<open>Object.prototype\<close>.
\<close>

lemma isCyclic_iff_cycle:
  assumes kc: "key_consistent idx" and hs: "has_string_id idx m"
    and np: "no_inherited_key_but m idx" and n: "length idx < n"
  shows "(\<exists>p s. isCyclic n opts m m idx {} = Return (Some p, s)) \<longleftrightarrow> (m, m) \<in> (edges opts idx)\<^sup>+"
proof
  assume "\<exists>p s. isCyclic n opts m m idx {} = Return (Some p, s)"
  then show "(m, m) \<in> (edges opts idx)\<^sup>+" using isCyclic_sound[OF kc] by blast
next
  assume cyc: "(m, m) \<in> (edges opts idx)\<^sup>+"
  from hs have m: "m \<in> dom (map_of idx)" by (auto simp: has_string_id_def split: option.splits)
  from top_returns[OF kc m n] obtain r s where r: "isCyclic n opts m m idx {} = Return (r, s)" by blast
  show "\<exists>p s. isCyclic n opts m m idx {} = Return (Some p, s)"
  proof (cases r)
    case None
    with isCyclic_complete[OF kc hs np] r cyc show ?thesis by blast
  next
    case (Some p)
    with r show ?thesis by blast
  qed
qed

text \<open>
  A module whose identifier is not a string is never the start of a reported path: the
  comparison of line 117 is between an \<^verbatim>\<open>id\<close> and a key, and a number is not
  \<^verbatim>\<open>===\<close> to a string.
\<close>

lemma no_path_without_string_id:
  assumes kc: "key_consistent idx" and hs: "\<not> has_string_id idx m"
  shows "isCyclic n opts m m idx {} \<noteq> Return (Some p, s)"
proof
  assume "isCyclic n opts m m idx {} = Return (Some p, s)"
  from path_head(1)[OF this] obtain reason rm where
    rM: "reasonModule opts idx reason = Some (m, rm)" and id: "id_m rm = IdStr m"
    unfolding closes_at_def by blast
  from reasonModule_indexed[OF kc rM] id hs show False by (simp add: has_string_id_def)
qed

lemma async_policy:
  assumes kc: "key_consistent idx" and hs: "has_string_id idx m"
    and np: "no_inherited_key_but m idx" and n: "length idx < n"
    and on: "allowAsyncCycles opts_on" and off: "\<not> allowAsyncCycles opts_off"
    and cyc: "(m, m) \<in> (edges opts_off idx)\<^sup>+" and dyn: "(m, m) \<notin> (edges opts_on idx)\<^sup>+"
  shows "(\<exists>s. isCyclic n opts_on m m idx {} = Return (None, s)) \<and>
         (\<exists>p s. isCyclic n opts_off m m idx {} = Return (Some p, s))"
proof
  from hs have m: "m \<in> dom (map_of idx)" by (auto simp: has_string_id_def split: option.splits)
  from top_returns[OF kc m n, where opts = opts_on]
  obtain r s where r: "isCyclic n opts_on m m idx {} = Return (r, s)" by blast
  show "\<exists>s. isCyclic n opts_on m m idx {} = Return (None, s)"
  proof (cases r)
    case None
    with r show ?thesis by blast
  next
    case (Some p)
    with isCyclic_sound[OF kc] r dyn show ?thesis by blast
  qed
  from isCyclic_iff_cycle[OF kc hs np n, where opts = opts_off] cyc
  show "\<exists>p s. isCyclic n opts_off m m idx {} = Return (Some p, s)" by simp
qed

lemma self_reason_skipped:
  assumes "reasonModule opts idx reason = Some (cur, rm)" and "in_object cur seen"
  shows "isCyclic_loop n opts init cur idx cname (reason # rest) seen =
         isCyclic_loop n opts init cur idx cname rest seen"
proof -
  have "\<not> (id_m rm = IdStr init \<and> cur \<noteq> init)"
    using reasonModule_start[OF assms(1)] by auto
  from loop_visited[OF assms this] show ?thesis .
qed

lemma two_element_path:
  assumes "distinct ks" and "set ks \<subseteq> {a, b}" and "ks \<noteq> []" and "hd ks = b" and "last ks = a"
    and "a \<noteq> b"
  shows "ks = [b, a]"
proof -
  from assms(3,4) obtain ks' where ks: "ks = b # ks'" by (cases ks) auto
  with assms(5,6) have ne: "ks' \<noteq> []" by auto
  from ks assms(1,2) have "set ks' \<subseteq> {a}" "distinct ks'" by auto
  with ne have "ks' = [a]"
    by (cases ks') (auto simp: subset_iff intro: hd_in_set)
  with ks show ?thesis by simp
qed

section \<open>A pass over the index\<close>

lemma detect_each_reports:
  assumes kc: "key_consistent idx"
  shows "set ks \<subseteq> dom (map_of idx) \<Longrightarrow> length idx < stack \<Longrightarrow>
         detect_each stack opts idx ks c =
           Return (foldl (\<lambda>c p. report opts p c) c (detections stack opts idx ks))"
proof (induction ks arbitrary: c)
  case Nil
  then show ?case by (simp add: detections_def List.map_filter_simps)
next
  case (Cons k ks)
  then have k: "k \<in> dom (map_of idx)" and ks: "set ks \<subseteq> dom (map_of idx)" by simp_all
  from top_returns[OF kc k Cons.prems(2), where opts = opts]
  obtain r s where r: "isCyclic stack opts k k idx {} = Return (r, s)" by auto
  show ?case
  proof (cases r)
    case None
    with r Cons.IH[OF ks Cons.prems(2), of c] show ?thesis
      by (simp add: detections_def List.map_filter_simps)
  next
    case (Some p)
    with r Cons.IH[OF ks Cons.prems(2), of "report opts p c"] show ?thesis
      by (simp add: detections_def List.map_filter_simps)
  qed
qed

section \<open>Which modules the index holds\<close>

lemma map_of_single_value:
  assumes "(k, v) \<in> set xs" and "\<And>v'. (k, v') \<in> set xs \<Longrightarrow> v' = v"
  shows "map_of xs k = Some v"
proof -
  from weak_map_of_SomeI[OF assms(1)] obtain x where x: "map_of xs k = Some x" by blast
  from map_of_SomeD[OF x] assms(2) have "x = v" by blast
  with x show ?thesis by simp
qed

lemma build_pure:
  assumes "ignores_lastIndex (include_re opts)" and "ignores_lastIndex (exclude_re opts)"
  shows "map_of (build_modulesById opts modules) =
           map_of (rev (map (\<lambda>m. (property_key (id_m m), m))
                          (filter (retained opts) (nullish_or modules []))))"
  unfolding build_modulesById_def map_of_fromEntries retained_filter[OF assms] ..

lemma map_of_build_unshared:
  assumes inc: "ignores_lastIndex (include_re opts)" and exc: "ignores_lastIndex (exclude_re opts)"
    and m: "m \<in> set (nullish_or modules [])"
    and u: "\<And>m'. m' \<in> set (nullish_or modules []) \<Longrightarrow> retained opts m' \<Longrightarrow>
              property_key (id_m m') = property_key (id_m m) \<Longrightarrow> m' = m"
  shows "map_of (build_modulesById opts modules) (property_key (id_m m)) =
           (if retained opts m then Some m else None)"
proof (cases "retained opts m")
  case True
  let ?es = "rev (map (\<lambda>m. (property_key (id_m m), m))
                    (filter (retained opts) (nullish_or modules [])))"
  from True m have "(property_key (id_m m), m) \<in> set ?es" by auto
  moreover have "v' = m" if "(property_key (id_m m), v') \<in> set ?es" for v'
    using that u by auto
  ultimately have "map_of ?es (property_key (id_m m)) = Some m" by (rule map_of_single_value)
  with True show ?thesis by (simp add: build_pure[OF inc exc])
next
  case False
  have "property_key (id_m m) \<notin> fst ` set (rev (map (\<lambda>m. (property_key (id_m m), m))
                    (filter (retained opts) (nullish_or modules []))))"
    using u False by (auto simp: image_iff)
  then have "map_of (build_modulesById opts modules) (property_key (id_m m)) = None"
    unfolding build_pure[OF inc exc] by (simp only: map_of_eq_None_iff not_False_eq_True)
  with False show ?thesis by simp
qed

lemma retained_iff:
  "retained opts m \<longleftrightarrow>
     (\<not> orphan m \<and>
      (\<exists>nm. name m = Some nm \<and> nm \<noteq> [] \<and> matches (include_re opts) nm \<and>
            \<not> matches (exclude_re opts) nm))"
  by (auto simp: retained_def split: option.splits)

lemma default_patterns:
  "ignores_lastIndex default_include" "ignores_lastIndex default_exclude"
  "matches default_include nm" "matches default_exclude nm \<longleftrightarrow> nm = []"
  by (simp_all add: ignores_lastIndex_def matches_def default_include_def default_exclude_def)

lemma constructor_default_patterns:
  "include_re (constructor (options\<lparr>exclude_opt := None, include_opt := None\<rparr>)) = default_include"
  "exclude_re (constructor (options\<lparr>exclude_opt := None, include_opt := None\<rparr>)) = default_exclude"
  by (simp_all add: constructor_def nullish_or_def)

lemma retained_default:
  "retained (constructor (options\<lparr>exclude_opt := None, include_opt := None\<rparr>)) m \<longleftrightarrow>
     (\<not> orphan m \<and> (\<exists>nm. name m = Some nm \<and> nm \<noteq> []))"
  unfolding retained_iff constructor_default_patterns by (auto simp: default_patterns)

lemma build_empty:
  "build_modulesById opts (Some []) = []" "build_modulesById opts None = []"
  by (simp_all add: build_modulesById_def Object_fromEntries_def nullish_or_def)

lemma keys_are_dom: "set (Object_keys idx) = dom (map_of idx)"
  by (simp add: set_Object_keys dom_map_of_conv_image_fst)

section \<open>What a pass reports\<close>

lemma pass_reports:
  assumes "length (build_modulesById opts modules) < stack"
  shows "detect_each stack opts (build_modulesById opts modules)
           (Object_keys (build_modulesById opts modules)) c =
         Return (foldl (\<lambda>c p. report opts p c) c
                   (detections stack opts (build_modulesById opts modules)
                      (Object_keys (build_modulesById opts modules))))"
  by (rule detect_each_reports[OF build_key_consistent _ assms]) (simp add: keys_are_dom)

lemma reports_as_warnings:
  assumes "onDetected opts = None" and "\<not> failOnError opts"
  shows "foldl (\<lambda>c p. report opts p c) c ps =
           c\<lparr>warnings := warnings c @ map (\<lambda>p. Error (message p)) ps\<rparr>"
  using assms by (induction ps arbitrary: c) (simp_all add: report_def message_def BASE_ERROR_def)

lemma reports_as_errors:
  assumes "onDetected opts = None" and "failOnError opts"
  shows "foldl (\<lambda>c p. report opts p c) c ps =
           c\<lparr>errors := errors c @ map (\<lambda>p. Error (message p)) ps\<rparr>"
  using assms by (induction ps arbitrary: c) (simp_all add: report_def message_def BASE_ERROR_def)

lemma reports_of_throwing_callback:
  assumes "onDetected opts = Some callback"
    and "\<And>p c. callback p c = (Some (err p), c)"
  shows "foldl (\<lambda>c p. report opts p c) c ps =
           c\<lparr>errors := errors c @ map (\<lambda>p. Caught (err p)) ps\<rparr>"
  using assms by (induction ps arbitrary: c) (simp_all add: report_def)

lemma stack_exhausted:
  "isCyclic 0 opts init cur idx seen = Throw RangeError"
  by simp

section \<open>The example inputs, evaluated\<close>

lemmas model_defs = build_modulesById_def constructor_def Object_fromEntries_def nullish_or_def
  str_match_def default_include_def default_exclude_def property_key_def reasonModule_def
  in_object_def set_seen_def Object_prototype_keys_def normalizePath_def is_dynamic_import_def
  truthy_def truthy_id_def module_def esm_def dyn_def entry_def no_options_def
  default_options_def async_options_def displayName_def

lemmas graph_defs = edges_def edge_targets_def List.map_filter_simps

lemma default_hooks:
  "onStart default_options = None" "onDetected default_options = None"
  "onEnd default_options = None" "\<not> failOnError default_options"
  "\<not> allowAsyncCycles default_options"
  by (simp_all add: default_options_def constructor_def no_options_def nullish_or_def)

lemma two_cycle_index:
  "build_modulesById default_options (Some two_cycle) =
     [(''a'', module ''a'' ''./a.js'' [entry, esm ''b'']), (''b'', module ''b'' ''./b.js'' [esm ''a''])]"
  by (simp add: two_cycle_def model_defs)

lemma two_cycle_search:
  "isCyclic 3 default_options ''a'' ''a'' (build_modulesById default_options (Some two_cycle)) {} =
     Return (Some [''a.js'', ''b.js'', ''a.js''], {''b'', ''a''})"
  by (simp add: two_cycle_def model_defs eval_nat_numeral)

lemma two_cycle_search_b:
  "isCyclic 3 default_options ''b'' ''b'' (build_modulesById default_options (Some two_cycle)) {} =
     Return (Some [''b.js'', ''a.js'', ''b.js''], {''a'', ''b''})"
  by (simp add: two_cycle_def model_defs eval_nat_numeral)

lemma two_cycle_keys:
  "Object_keys (build_modulesById default_options (Some two_cycle)) = [''a'', ''b'']"
  unfolding two_cycle_index by (simp add: Object_keys_def is_array_index_def is_digit_def)

lemma two_cycle_detections:
  "detections 3 default_options (build_modulesById default_options (Some two_cycle))
     (Object_keys (build_modulesById default_options (Some two_cycle))) =
   [[''a.js'', ''b.js'', ''a.js''], [''b.js'', ''a.js'', ''b.js'']]"
  unfolding two_cycle_keys detections_def
  by (simp add: List.map_filter_simps two_cycle_search two_cycle_search_b)

lemma constructor_cycle_index:
  "build_modulesById default_options (Some constructor_cycle) =
     [(''a'', module ''a'' ''./a.js'' [entry, esm ''constructor'']),
      (''constructor'', module ''constructor'' ''./constructor.js'' [esm ''a''])]"
  by (simp add: constructor_cycle_def model_defs)

lemma inherited_async_cycle_index:
  "build_modulesById default_options (Some inherited_async_cycle) =
     [(''toString'', module ''toString'' ''./toString.js'' [entry, dyn ''valueOf'']),
      (''valueOf'', module ''valueOf'' ''./valueOf.js'' [esm ''toString''])]"
  by (simp add: inherited_async_cycle_def model_defs)

text \<open>
  The cycle closed by a dynamic import, between modules with ordinary identifiers: reported
  without \<open>allowAsyncCycles\<close>, not reported with it, from either module.
\<close>

lemma async_cycle_without_option:
  "isCyclic 3 default_options ''a'' ''a'' (build_modulesById default_options (Some async_cycle)) {} =
     Return (Some [''a.js'', ''b.js'', ''a.js''], {''b'', ''a''})"
  "isCyclic 3 default_options ''b'' ''b'' (build_modulesById default_options (Some async_cycle)) {} =
     Return (Some [''b.js'', ''a.js'', ''b.js''], {''a'', ''b''})"
  by (simp_all add: async_cycle_def model_defs eval_nat_numeral)

lemma async_cycle_with_option:
  "isCyclic 3 async_options ''a'' ''a'' (build_modulesById async_options (Some async_cycle)) {} =
     Return (None, {''a''})"
  "isCyclic 3 async_options ''b'' ''b'' (build_modulesById async_options (Some async_cycle)) {} =
     Return (None, {''a'', ''b''})"
  by (simp_all add: async_cycle_def model_defs eval_nat_numeral)

text \<open>
  The two modules that import each other, with numbers as identifiers: the index has the
  keys \<^verbatim>\<open>"1"\<close> and \<^verbatim>\<open>"2"\<close>, the closing test of line 117 compares the number \<open>1\<close> with
  the key \<^verbatim>\<open>"1"\<close>, and neither search returns a path.
\<close>

lemma numeric_cycle_index:
  "map fst (build_modulesById default_options (Some numeric_cycle)) = [''1'', ''2'']"
  by (simp add: numeric_cycle_def model_defs decimal.simps)

lemma numeric_cycle_searches:
  "isCyclic 3 default_options ''1'' ''1'' (build_modulesById default_options (Some numeric_cycle)) {} =
     Return (None, {''1'', ''2''})"
  "isCyclic 3 default_options ''2'' ''2'' (build_modulesById default_options (Some numeric_cycle)) {} =
     Return (None, {''1'', ''2''})"
  by (simp_all add: numeric_cycle_def model_defs decimal.simps eval_nat_numeral insert_commute)

lemma self_loop_index:
  "build_modulesById default_options (Some self_loop) =
     [(''a'', module ''a'' ''./a.js'' [entry, esm ''a'']), (''b'', module ''b'' ''./b.js'' [esm ''a''])]"
  by (simp add: self_loop_def model_defs)


lemma orphans_and_one_index:
  "build_modulesById default_options (Some orphans_and_one) =
     [(''a'', module ''a'' ''./a.js'' [entry])]"
  by (simp add: orphans_and_one_def model_defs)

text \<open>
  With the sticky pattern as \<open>include\<close>, the match on the first name leaves \<^verbatim>\<open>lastIndex\<close>
  at \<open>3\<close>, and the second name, which the pattern matches from the start, is not found
  there.
\<close>

lemma lib_modules_index:
  "build_modulesById sticky_options (Some lib_modules) = [(''x'', module ''x'' ''lib/x.js'' [entry])]"
  by (simp add: lib_modules_def sticky_options_def sticky_lib_def model_defs)

text \<open>
  The searches on the index of \<open>two_cycle\<close> depend on the options through
  \<open>allowAsyncCycles\<close> only, and the index through the two patterns only.
\<close>

lemma two_cycle_index_for:
  assumes "include_re opts = default_include" and "exclude_re opts = default_exclude"
  shows "build_modulesById opts (Some two_cycle) =
     [(''a'', module ''a'' ''./a.js'' [entry, esm ''b'']), (''b'', module ''b'' ''./b.js'' [esm ''a''])]"
  by (simp add: assms two_cycle_def build_modulesById_def Object_fromEntries_def nullish_or_def
      str_match_def default_include_def default_exclude_def property_key_def module_def)

lemma two_cycle_detections_for:
  assumes "include_re opts = default_include" and "exclude_re opts = default_exclude"
    and "\<not> allowAsyncCycles opts"
  shows "detections 3 opts (build_modulesById opts (Some two_cycle))
           (Object_keys (build_modulesById opts (Some two_cycle))) =
         [[''a.js'', ''b.js'', ''a.js''], [''b.js'', ''a.js'', ''b.js'']]"
proof -
  let ?idx = "[(''a'', module ''a'' ''./a.js'' [entry, esm ''b'']),
               (''b'', module ''b'' ''./b.js'' [esm ''a''])]"
  have keys: "Object_keys ?idx = [''a'', ''b'']"
    by (simp add: Object_keys_def is_array_index_def is_digit_def)
  have a: "isCyclic 3 opts ''a'' ''a'' ?idx {} =
      Return (Some [''a.js'', ''b.js'', ''a.js''], {''b'', ''a''})"
    using assms(3)
    by (simp add: nullish_or_def property_key_def reasonModule_def in_object_def set_seen_def
        Object_prototype_keys_def normalizePath_def truthy_id_def module_def esm_def entry_def
        eval_nat_numeral)
  have b: "isCyclic 3 opts ''b'' ''b'' ?idx {} =
      Return (Some [''b.js'', ''a.js'', ''b.js''], {''a'', ''b''})"
    using assms(3)
    by (simp add: nullish_or_def property_key_def reasonModule_def in_object_def set_seen_def
        Object_prototype_keys_def normalizePath_def truthy_id_def module_def esm_def entry_def
        eval_nat_numeral)
  show ?thesis
    unfolding two_cycle_index_for[OF assms(1,2)] keys detections_def
    by (simp add: List.map_filter_simps a b)
qed

lemma failing_options_fields:
  "include_re failing_options = default_include" "exclude_re failing_options = default_exclude"
  "\<not> allowAsyncCycles failing_options" "onDetected failing_options = None"
  "failOnError failing_options" "onStart failing_options = None" "onEnd failing_options = None"
  by (simp_all add: failing_options_def constructor_def no_options_def nullish_or_def)

lemma throwing_options_fields:
  "include_re throwing_options = default_include" "exclude_re throwing_options = default_exclude"
  "\<not> allowAsyncCycles throwing_options" "onDetected throwing_options = Some throwing_callback"
  "onStart throwing_options = None" "onEnd throwing_options = None"
  by (simp_all add: throwing_options_def constructor_def no_options_def nullish_or_def)

lemma default_options_patterns:
  "include_re default_options = default_include" "exclude_re default_options = default_exclude"
  by (simp_all add: default_options_def constructor_def no_options_def nullish_or_def)

text \<open>With room on the call stack for one call only, the search of \<open>two_cycle\<close> exhausts it.\<close>

lemma two_cycle_exhausts_small_stack:
  "isCyclic 1 default_options ''a'' ''a'' (build_modulesById default_options (Some two_cycle)) {} =
     Throw RangeError"
  by (simp add: two_cycle_def model_defs)

section \<open>The claims\<close>

text \<open>
  C1. On every index the builder makes, the search \<open>isCyclic m m index {}\<close> returns a path
  if and only if \<open>m\<close> lies on a cycle of retained modules joined by reasons that are not
  skipped. The "only if" half is \<open>isCyclic_sound\<close>, and both halves hold when the
  identifier of \<open>m\<close> is a string and no other identifier is a name that objects inherit
  (\<open>isCyclic_iff_cycle\<close>). The "if" half fails otherwise:
  \<^verbatim>\<open>reasonModule.id in seenModules\<close> is true for the identifier \<^verbatim>\<open>constructor\<close> before the
  module has been visited, so the search from \<open>a\<close> never enters it and misses the cycle
  \<open>a \<rightarrow> constructor \<rightarrow> a\<close>. (A module whose identifier is a number is not reported
  either: \<open>no_path_without_string_id\<close>, \<open>numeric_cycle_searches\<close>.)
\<close>

theorem inherited_name_hides_cycle:
  "(''a'', ''a'') \<in> (edges default_options (build_modulesById default_options (Some constructor_cycle)))\<^sup>+ \<and>
   isCyclic 3 default_options ''a'' ''a'' (build_modulesById default_options (Some constructor_cycle)) {} =
     Return (None, {''a''})"
proof -
  let ?idx = "build_modulesById default_options (Some constructor_cycle)"
  have e1: "(''a'', ''constructor'') \<in> edges default_options ?idx"
    unfolding constructor_cycle_index by (simp add: graph_defs model_defs)
  have e2: "(''constructor'', ''a'') \<in> edges default_options ?idx"
    unfolding constructor_cycle_index by (simp add: graph_defs model_defs)
  have c: "(''a'', ''a'') \<in> (edges default_options ?idx)\<^sup>+"
    using e1 e2 by (rule trancl_into_trancl[OF r_into_trancl])
  have "isCyclic 3 default_options ''a'' ''a'' ?idx {} = Return (None, {''a''})"
    by (simp add: constructor_cycle_def model_defs eval_nat_numeral)
  with c show ?thesis by simp
qed

text \<open>
  C2. Two modules \<open>A\<close> and \<open>B\<close> that import each other: the claim is a path of length 2
  with each display name once. The search from \<open>A\<close> returns the three elements
  \<open>[A, B, A]\<close>: the closing step gives \<open>[A, B]\<close> (lines 120-124) and the outer call
  appends the name of its own module (lines 137-140). And it returns no path at all when the
  identifiers are the numbers \<open>1\<close> and \<open>2\<close> (line 117 compares the number with the key
  \<^verbatim>\<open>"1"\<close>), or when \<open>B\<close> has the identifier \<^verbatim>\<open>constructor\<close> (line 115 finds that
  name in \<^verbatim>\<open>seenModules\<close> before the module has been visited).
\<close>

theorem two_cycle_not_a_two_element_path:
  "isCyclic 3 default_options ''a'' ''a'' (build_modulesById default_options (Some two_cycle)) {} =
     Return (Some [''a.js'', ''b.js'', ''a.js''], {''b'', ''a''}) \<and>
   length [''a.js'', ''b.js'', ''a.js''] = 3 \<and>
   count_list [''a.js'', ''b.js'', ''a.js''] ''a.js'' = 2 \<and>
   isCyclic 3 default_options ''1'' ''1'' (build_modulesById default_options (Some numeric_cycle)) {} =
     Return (None, {''1'', ''2''}) \<and>
   isCyclic 3 default_options ''2'' ''2'' (build_modulesById default_options (Some numeric_cycle)) {} =
     Return (None, {''1'', ''2''}) \<and>
   isCyclic 3 default_options ''a'' ''a''
     (build_modulesById default_options (Some constructor_cycle)) {} = Return (None, {''a''})"
proof -
  have "isCyclic 3 default_options ''a'' ''a''
      (build_modulesById default_options (Some constructor_cycle)) {} = Return (None, {''a''})"
    by (simp add: constructor_cycle_def model_defs eval_nat_numeral)
  with two_cycle_search numeric_cycle_searches show ?thesis by simp
qed

text \<open>
  C2 as amended: when the index holds exactly two modules \<open>a\<close> and \<open>b\<close>, each with a
  reason that is followed to the other, the identifier of \<open>a\<close> is a string (the closing
  test of line 117 compares it with \<^verbatim>\<open>===\<close> to the key the search started from), the
  identifier of \<open>b\<close> is not a name inherited from \<^verbatim>\<open>Object.prototype\<close>, and the call stack
  has room for more calls than the index has entries, the search from \<open>a\<close> returns exactly
  \<open>[name a, name b, name a]\<close>.
\<close>

theorem two_module_cycle_path:
  assumes d: "dom (map_of (build_modulesById opts modules)) = {a, b}" and ab: "a \<noteq> b"
    and e1: "(a, b) \<in> edges opts (build_modulesById opts modules)"
    and e2: "(b, a) \<in> edges opts (build_modulesById opts modules)"
    and hs: "has_string_id (build_modulesById opts modules) a"
    and np: "no_inherited_key_but a (build_modulesById opts modules)"
    and n: "length (build_modulesById opts modules) < n"
  shows "\<exists>s. isCyclic n opts a a (build_modulesById opts modules) {} =
           Return (Some [displayName (build_modulesById opts modules) a,
                         displayName (build_modulesById opts modules) b,
                         displayName (build_modulesById opts modules) a], s)"
proof -
  let ?idx = "build_modulesById opts modules"
  have "(a, a) \<in> (edges opts ?idx)\<^sup>+" using e1 e2 by (rule trancl_into_trancl[OF r_into_trancl])
  with isCyclic_iff_cycle[OF build_key_consistent hs np n, where opts = opts]
  obtain p s where r: "isCyclic n opts a a ?idx {} = Return (Some p, s)" by blast
  from path_shape(1)[OF build_key_consistent r] obtain ks where
    ks: "p = map (displayName ?idx) (a # ks)" "ks \<noteq> []" "last ks = a"
        "successively (\<lambda>x y. (y, x) \<in> edges opts ?idx) (a # ks)" "distinct ks"
        "set ks \<subseteq> dom (map_of ?idx)" by blast
  from ks(2) obtain c ks' where c: "ks = c # ks'" by (cases ks) auto
  with ks(4) have "(c, a) \<in> edges opts ?idx" by simp
  then have "c \<noteq> a" by (elim edgeE) auto
  moreover from c ks(6) d have "c \<in> {a, b}" by auto
  ultimately have "hd ks = b" using c by auto
  from two_element_path[OF ks(5) _ ks(2) this ks(3) ab] ks(6) d have "ks = [b, a]" by simp
  with ks(1) r show ?thesis by auto
qed

theorem two_module_cycle_path_witness:
  "dom (map_of (build_modulesById default_options (Some two_cycle))) = {''a'', ''b''} \<and>
   (''a'', ''b'') \<in> edges default_options (build_modulesById default_options (Some two_cycle)) \<and>
   (''b'', ''a'') \<in> edges default_options (build_modulesById default_options (Some two_cycle)) \<and>
   has_string_id (build_modulesById default_options (Some two_cycle)) ''a'' \<and>
   no_inherited_key_but ''a'' (build_modulesById default_options (Some two_cycle)) \<and>
   (\<exists>s. isCyclic 3 default_options ''a'' ''a'' (build_modulesById default_options (Some two_cycle)) {} =
      Return (Some [''a.js'', ''b.js'', ''a.js''], s))"
proof -
  let ?idx = "build_modulesById default_options (Some two_cycle)"
  have d: "dom (map_of ?idx) = {''a'', ''b''}"
    by (simp add: two_cycle_index dom_map_of_conv_image_fst)
  have ab: "''a'' \<noteq> ''b''" by simp
  have e1: "(''a'', ''b'') \<in> edges default_options ?idx"
    unfolding two_cycle_index by (simp add: graph_defs model_defs)
  have e2: "(''b'', ''a'') \<in> edges default_options ?idx"
    unfolding two_cycle_index by (simp add: graph_defs model_defs)
  have hs: "has_string_id ?idx ''a''"
    by (simp add: two_cycle_index has_string_id_def module_def)
  have np: "no_inherited_key_but ''a'' ?idx"
    by (simp add: two_cycle_index no_inherited_key_but_def Object_prototype_keys_def)
  have n: "length ?idx < 3" by (simp add: two_cycle_index)
  have dn: "displayName ?idx ''a'' = ''a.js''" "displayName ?idx ''b'' = ''b.js''"
    unfolding two_cycle_index by (simp_all add: model_defs)
  from two_module_cycle_path[OF d ab e1 e2 hs np n]
  have "\<exists>s. isCyclic 3 default_options ''a'' ''a'' ?idx {} =
      Return (Some [''a.js'', ''b.js'', ''a.js''], s)" by (simp only: dn)
  with d e1 e2 hs np show ?thesis by blast
qed

text \<open>
  C3. Every path a search returns, from any call and on any index, has at least two
  elements, and it begins at the edge that closed the cycle: some module \<open>c\<close> other than
  the start has a reason that is followed to a module whose \<^verbatim>\<open>id\<close> is the start
  identifier; the first element of the path is the name of that module (its identifier if
  it has no name) and the second element is that of \<open>c\<close>.
\<close>

theorem path_starts_at_seed:
  assumes "isCyclic n opts initialModule currentModule modulesById seenModules = Return (Some p, s)"
  shows "2 \<le> length p \<and>
         (\<exists>c cm reason rm.
             map_of modulesById c = Some cm \<and> reason \<in> set (nullish_or (reasons cm) []) \<and>
             reasonModule opts modulesById reason = Some (initialModule, rm) \<and>
             id_m rm = IdStr initialModule \<and> c \<noteq> initialModule \<and>
             hd p = nullish_or (normalizePath (name rm)) initialModule \<and>
             p ! 1 = nullish_or (normalizePath (name cm)) c)"
  using path_head(1)[OF assms] unfolding closes_at_def by simp

theorem path_starts_at_seed_witness:
  "isCyclic 3 default_options ''a'' ''a'' (build_modulesById default_options (Some two_cycle)) {} =
     Return (Some [''a.js'', ''b.js'', ''a.js''], {''b'', ''a''}) \<and>
   (2 \<le> length [''a.js'', ''b.js'', ''a.js''] \<and>
    (\<exists>c cm reason rm.
        map_of (build_modulesById default_options (Some two_cycle)) c = Some cm \<and>
        reason \<in> set (nullish_or (reasons cm) []) \<and>
        reasonModule default_options (build_modulesById default_options (Some two_cycle)) reason =
          Some (''a'', rm) \<and>
        id_m rm = IdStr ''a'' \<and> c \<noteq> ''a'' \<and>
        hd [''a.js'', ''b.js'', ''a.js''] = nullish_or (normalizePath (name rm)) ''a'' \<and>
        [''a.js'', ''b.js'', ''a.js''] ! 1 = nullish_or (normalizePath (name cm)) c))"
  using two_cycle_search path_starts_at_seed[OF two_cycle_search] by (rule conjI)

text \<open>
  C4. The claim is that, for any list of modules, the index contains a module if and only
  if the module is not an orphan, has a non-empty name, the name matches \<open>include\<close> and
  does not match \<open>exclude\<close>. Two things stand in the way. The index is keyed by
  identifier, so of the modules that share an identifier it keeps the last one only: of two
  named modules without an \<^verbatim>\<open>id\<close> the first passes the filter and is not in the index.
  And \<^verbatim>\<open>name.match(include)\<close> starts at the \<^verbatim>\<open>lastIndex\<close> of a sticky pattern, which the
  match on an earlier module has moved: with \<^verbatim>\<open>/lib/y\<close> as \<open>include\<close>, the module
  \<^verbatim>\<open>lib/y.js\<close> that follows \<^verbatim>\<open>lib/x.js\<close> is not in the index, though the pattern
  matches its name and no module shares its identifier.
\<close>

theorem retained_module_not_indexed:
  "retained default_options \<lparr> id_m = IdUndefined, name = Some ''./a.js'', orphan = False, reasons = None \<rparr> \<and>
   \<lparr> id_m = IdUndefined, name = Some ''./a.js'', orphan = False, reasons = None \<rparr> \<in> set unidentified_modules \<and>
   build_modulesById default_options (Some unidentified_modules) =
     [(''undefined'', \<lparr> id_m = IdUndefined, name = Some ''./b.js'', orphan = False, reasons = None \<rparr>)] \<and>
   retained sticky_options (module ''y'' ''lib/y.js'' [entry]) \<and>
   module ''y'' ''lib/y.js'' [entry] \<in> set lib_modules \<and>
   build_modulesById sticky_options (Some lib_modules) = [(''x'', module ''x'' ''lib/x.js'' [entry])]"
proof -
  have "retained default_options
      \<lparr> id_m = IdUndefined, name = Some ''./a.js'', orphan = False, reasons = None \<rparr>"
    by (simp add: retained_def matches_def model_defs)
  moreover have "\<lparr> id_m = IdUndefined, name = Some ''./a.js'', orphan = False, reasons = None \<rparr>
      \<in> set unidentified_modules"
    by (simp add: unidentified_modules_def)
  moreover have "build_modulesById default_options (Some unidentified_modules) =
     [(''undefined'', \<lparr> id_m = IdUndefined, name = Some ''./b.js'', orphan = False, reasons = None \<rparr>)]"
    by (simp add: unidentified_modules_def model_defs)
  moreover have "retained sticky_options (module ''y'' ''lib/y.js'' [entry])"
    by (simp add: retained_def matches_def sticky_options_def sticky_lib_def model_defs)
  moreover have "module ''y'' ''lib/y.js'' [entry] \<in> set lib_modules"
    by (simp add: lib_modules_def)
  ultimately show ?thesis using lib_modules_index by simp
qed

text \<open>
  C4 as amended: when the answers of the two patterns do not depend on \<^verbatim>\<open>lastIndex\<close>
  (neither is sticky), the index holds, under its identifier, a module of the list whose
  identifier no other module that passes the filter shares if and only if the module is not
  an orphan, has a non-empty name, the name matches \<open>include\<close> and does not match
  \<open>exclude\<close>; with the default patterns the condition is "not an orphan and named". For
  every list and all patterns, every entry of the index is a module of the list, under the
  key of its own identifier, that is not an orphan and has a non-empty name; an empty or
  absent list gives the empty index. The builder is a total function: no input makes it
  fail.
\<close>

theorem index_retains_exactly:
  "(ignores_lastIndex (include_re opts) \<and> ignores_lastIndex (exclude_re opts) \<longrightarrow>
      (\<forall>m \<in> set modules.
         (\<forall>m' \<in> set modules.
            retained opts m' \<and> property_key (id_m m') = property_key (id_m m) \<longrightarrow> m' = m) \<longrightarrow>
         (map_of (build_modulesById opts (Some modules)) (property_key (id_m m)) = Some m \<longleftrightarrow>
          (\<not> orphan m \<and>
           (\<exists>nm. name m = Some nm \<and> nm \<noteq> [] \<and> matches (include_re opts) nm \<and>
                 \<not> matches (exclude_re opts) nm))))) \<and>
   (\<forall>m \<in> set modules.
      (\<forall>m' \<in> set modules.
         \<not> orphan m' \<and> truthy (name m') \<and> property_key (id_m m') = property_key (id_m m) \<longrightarrow>
         m' = m) \<longrightarrow>
      (map_of (build_modulesById
                 (constructor (options\<lparr>exclude_opt := None, include_opt := None\<rparr>))
                 (Some modules)) (property_key (id_m m)) = Some m \<longleftrightarrow>
       (\<not> orphan m \<and> (\<exists>nm. name m = Some nm \<and> nm \<noteq> [])))) \<and>
   (\<forall>k m. map_of (build_modulesById opts (Some modules)) k = Some m \<longrightarrow>
      m \<in> set modules \<and> property_key (id_m m) = k \<and> \<not> orphan m \<and> truthy (name m)) \<and>
   build_modulesById opts (Some []) = [] \<and> build_modulesById opts None = []"
proof (intro conjI ballI allI impI)
  fix m
  assume p: "ignores_lastIndex (include_re opts) \<and> ignores_lastIndex (exclude_re opts)"
    and m: "m \<in> set modules"
    and u: "\<forall>m' \<in> set modules.
              retained opts m' \<and> property_key (id_m m') = property_key (id_m m) \<longrightarrow> m' = m"
  have "map_of (build_modulesById opts (Some modules)) (property_key (id_m m)) =
          (if retained opts m then Some m else None)"
    by (rule map_of_build_unshared) (use p m u in \<open>auto simp: nullish_or_def\<close>)
  then show "map_of (build_modulesById opts (Some modules)) (property_key (id_m m)) = Some m \<longleftrightarrow>
        (\<not> orphan m \<and>
         (\<exists>nm. name m = Some nm \<and> nm \<noteq> [] \<and> matches (include_re opts) nm \<and>
               \<not> matches (exclude_re opts) nm))"
    by (simp add: retained_iff)
next
  fix m
  let ?o = "constructor (options\<lparr>exclude_opt := None, include_opt := None\<rparr>) :: 'b FullOptions"
  assume m: "m \<in> set modules"
    and u: "\<forall>m' \<in> set modules.
         \<not> orphan m' \<and> truthy (name m') \<and> property_key (id_m m') = property_key (id_m m) \<longrightarrow>
         m' = m"
  have r: "retained ?o m' \<longleftrightarrow> \<not> orphan m' \<and> truthy (name m')" for m'
    unfolding retained_default by (auto simp: truthy_def split: option.splits)
  have "map_of (build_modulesById ?o (Some modules)) (property_key (id_m m)) =
          (if retained ?o m then Some m else None)"
    by (rule map_of_build_unshared)
       (use m u r in \<open>auto simp: nullish_or_def constructor_default_patterns default_patterns\<close>)
  then show "map_of (build_modulesById ?o (Some modules)) (property_key (id_m m)) = Some m \<longleftrightarrow>
        (\<not> orphan m \<and> (\<exists>nm. name m = Some nm \<and> nm \<noteq> []))"
    by (simp add: retained_default)
next
  fix k m assume "map_of (build_modulesById opts (Some modules)) k = Some m"
  then have "(k, m) \<in> set (build_modulesById opts (Some modules))" by (rule map_of_SomeD)
  from build_members[OF this]
  show "m \<in> set modules" "property_key (id_m m) = k" "\<not> orphan m" "truthy (name m)"
    by (simp_all add: nullish_or_def)
next
  show "build_modulesById opts (Some []) = []" "build_modulesById opts None = []"
    by (rule build_empty)+
qed

theorem index_retains_exactly_witness:
  "ignores_lastIndex (include_re default_options) \<and>
   ignores_lastIndex (exclude_re default_options) \<and>
   map_of (build_modulesById default_options (Some orphans_and_one)) ''a'' =
     Some (module ''a'' ''./a.js'' [entry]) \<and>
   map_of (build_modulesById default_options (Some orphans_and_one)) ''undefined'' \<noteq>
     Some \<lparr> id_m = IdUndefined, name = Some ''./x.js'', orphan = True, reasons = None \<rparr>"
proof -
  let ?x = "\<lparr> id_m = IdUndefined, name = Some ''./x.js'', orphan = True, reasons = None \<rparr>"
  let ?a = "module ''a'' ''./a.js'' [entry]"
  have p: "ignores_lastIndex (include_re default_options) \<and>
           ignores_lastIndex (exclude_re default_options)"
    by (simp add: default_options_patterns default_patterns)
  have mem: "?a \<in> set orphans_and_one" "?x \<in> set orphans_and_one"
    by (simp_all add: orphans_and_one_def)
  have ua: "\<forall>m' \<in> set orphans_and_one.
      retained default_options m' \<and> property_key (id_m m') = property_key (id_m ?a) \<longrightarrow> m' = ?a"
    by (simp add: orphans_and_one_def retained_def property_key_def module_def)
  have ux: "\<forall>m' \<in> set orphans_and_one.
      retained default_options m' \<and> property_key (id_m m') = property_key (id_m ?x) \<longrightarrow> m' = ?x"
    by (simp add: orphans_and_one_def retained_def property_key_def module_def)
  note T = index_retains_exactly[where opts = default_options and modules = orphans_and_one,
      THEN conjunct1, THEN mp, OF p]
  from T[THEN bspec, OF mem(1), THEN mp, OF ua]
  have A: "map_of (build_modulesById default_options (Some orphans_and_one)) ''a'' = Some ?a"
    by (simp add: property_key_def module_def default_options_patterns default_patterns)
  from T[THEN bspec, OF mem(2), THEN mp, OF ux]
  have B: "map_of (build_modulesById default_options (Some orphans_and_one)) ''undefined'' \<noteq> Some ?x"
    by (simp add: property_key_def)
  from p A B show ?thesis by simp
qed

text \<open>
  C5. With \<open>allowAsyncCycles\<close>, a cycle that can only be closed through a dynamic import is
  not reported, and the same graph without the option is reported. Both halves hold for a
  start module whose identifier is a string when no other identifier is a name that objects
  inherit (\<open>async_policy\<close>). The second half fails otherwise, for the reason given at C1:
  in the cycle between the modules \<^verbatim>\<open>toString\<close> and \<^verbatim>\<open>valueOf\<close> each search takes the other
  module for a visited one, and without the option the plugin reports nothing at all.
\<close>

theorem inherited_names_hide_cycle_without_async_option:
  "(''toString'', ''toString'') \<in>
     (edges default_options (build_modulesById default_options (Some inherited_async_cycle)))\<^sup>+ \<and>
   isCyclic 3 default_options ''toString'' ''toString''
     (build_modulesById default_options (Some inherited_async_cycle)) {} = Return (None, {''toString''}) \<and>
   isCyclic 3 default_options ''valueOf'' ''valueOf''
     (build_modulesById default_options (Some inherited_async_cycle)) {} = Return (None, {''valueOf''}) \<and>
   apply_plugin 3 default_options (Some inherited_async_cycle) \<lparr>errors = [], warnings = []\<rparr> =
     Return \<lparr>errors = [], warnings = []\<rparr>"
proof -
  let ?idx = "build_modulesById default_options (Some inherited_async_cycle)"
  have e1: "(''toString'', ''valueOf'') \<in> edges default_options ?idx"
    unfolding inherited_async_cycle_index by (simp add: graph_defs model_defs)
  have e2: "(''valueOf'', ''toString'') \<in> edges default_options ?idx"
    unfolding inherited_async_cycle_index by (simp add: graph_defs model_defs)
  have c: "(''toString'', ''toString'') \<in> (edges default_options ?idx)\<^sup>+"
    using e1 e2 by (rule trancl_into_trancl[OF r_into_trancl])
  have s1: "isCyclic 3 default_options ''toString'' ''toString'' ?idx {} = Return (None, {''toString''})"
    by (simp add: inherited_async_cycle_def model_defs eval_nat_numeral)
  have s2: "isCyclic 3 default_options ''valueOf'' ''valueOf'' ?idx {} = Return (None, {''valueOf''})"
    by (simp add: inherited_async_cycle_def model_defs eval_nat_numeral)
  note idx = inherited_async_cycle_index
  have keys: "Object_keys ?idx = [''toString'', ''valueOf'']"
    unfolding idx by (simp add: Object_keys_def is_array_index_def is_digit_def)
  have "apply_plugin 3 default_options (Some inherited_async_cycle) \<lparr>errors = [], warnings = []\<rparr> =
     Return \<lparr>errors = [], warnings = []\<rparr>"
  proof -
    have h: "run_hook (onStart default_options) c = Return c"
        "run_hook (onEnd default_options) c = Return c" for c :: "unit Compilation"
      by (simp_all add: run_hook_def default_hooks)
    show ?thesis
      unfolding apply_plugin_def Let_def keys by (simp add: h s1 s2)
  qed
  with c s1 s2 show ?thesis by simp
qed

text \<open>
  C6. A reason whose source is the module that owns it is never reported as a cycle on its
  own: inside a search it is always skipped (\<^verbatim>\<open>in\<close> finds the current module in
  \<^verbatim>\<open>seenModules\<close> once the loop has started), and a search from a module that lies on no
  cycle of edges between different modules returns no path, whatever reasons lead from a
  module to itself.
\<close>

theorem self_reference_not_reported:
  "(reasonModule opts (build_modulesById opts modules) reason = Some (currentModule, rm) \<and>
      in_object currentModule seenModules \<longrightarrow>
      isCyclic_loop k opts initialModule currentModule (build_modulesById opts modules) cname
        (reason # rest) seenModules =
      isCyclic_loop k opts initialModule currentModule (build_modulesById opts modules) cname
        rest seenModules) \<and>
   (m \<in> dom (map_of (build_modulesById opts modules)) \<and>
      length (build_modulesById opts modules) < n \<and>
      (m, m) \<notin> (edges opts (build_modulesById opts modules))\<^sup>+ \<longrightarrow>
      (\<exists>s. isCyclic n opts m m (build_modulesById opts modules) {} = Return (None, s)))"
proof (intro conjI impI)
  assume "reasonModule opts (build_modulesById opts modules) reason = Some (currentModule, rm) \<and>
      in_object currentModule seenModules"
  then show "isCyclic_loop k opts initialModule currentModule (build_modulesById opts modules) cname
        (reason # rest) seenModules =
      isCyclic_loop k opts initialModule currentModule (build_modulesById opts modules) cname
        rest seenModules"
    using self_reason_skipped by blast
next
  let ?idx = "build_modulesById opts modules"
  assume a: "m \<in> dom (map_of ?idx) \<and> length ?idx < n \<and> (m, m) \<notin> (edges opts ?idx)\<^sup>+"
  then have m: "m \<in> dom (map_of ?idx)" and n: "length ?idx < n"
    and nc: "(m, m) \<notin> (edges opts ?idx)\<^sup>+" by simp_all
  from top_returns[OF build_key_consistent m n, where opts = opts]
  obtain r s where r: "isCyclic n opts m m ?idx {} = Return (r, s)" by blast
  show "\<exists>s. isCyclic n opts m m ?idx {} = Return (None, s)"
  proof (cases r)
    case None
    with r show ?thesis by blast
  next
    case (Some p)
    with isCyclic_sound[OF build_key_consistent] r nc show ?thesis by blast
  qed
qed

theorem self_reference_not_reported_witness:
  "reasonModule default_options (build_modulesById default_options (Some self_loop)) (esm ''a'') =
     Some (''a'', module ''a'' ''./a.js'' [entry, esm ''a'']) \<and>
   in_object ''a'' {''a''} \<and>
   isCyclic_loop 2 default_options ''a'' ''a'' (build_modulesById default_options (Some self_loop))
     (Some ''./a.js'') [esm ''a''] {''a''} =
   isCyclic_loop 2 default_options ''a'' ''a'' (build_modulesById default_options (Some self_loop))
     (Some ''./a.js'') [] {''a''} \<and>
   ''a'' \<in> set (edge_targets default_options (build_modulesById default_options (Some self_loop)) ''a'') \<and>
   (''a'', ''a'') \<notin> (edges default_options (build_modulesById default_options (Some self_loop)))\<^sup>+ \<and>
   (\<exists>s. isCyclic 3 default_options ''a'' ''a'' (build_modulesById default_options (Some self_loop)) {} =
      Return (None, s))"
proof -
  let ?idx = "build_modulesById default_options (Some self_loop)"
  have rM: "reasonModule default_options ?idx (esm ''a'') =
      Some (''a'', module ''a'' ''./a.js'' [entry, esm ''a''])"
    unfolding self_loop_index by (simp add: model_defs)
  have seen: "in_object ''a'' {''a''}" by (simp add: in_object_def)
  have t: "edge_targets default_options ?idx ''a'' = [''a'']"
    unfolding self_loop_index by (simp add: graph_defs model_defs)
  have nc: "(''a'', ''a'') \<notin> (edges default_options ?idx)\<^sup>+"
  proof
    assume "(''a'', ''a'') \<in> (edges default_options ?idx)\<^sup>+"
    then obtain z where "(''a'', z) \<in> edges default_options ?idx" by (auto dest: tranclD)
    then show False by (simp add: edges_def t)
  qed
  have m: "''a'' \<in> dom (map_of ?idx)" by (simp add: self_loop_index)
  have n: "length ?idx < 3" by (simp add: self_loop_index)
  from self_reference_not_reported[where opts = default_options and modules = "Some self_loop"
      and reason = "esm ''a''" and currentModule = "''a''"
      and rm = "module ''a'' ''./a.js'' [entry, esm ''a'']" and seenModules = "{''a''}" and k = 2
      and initialModule = "''a''" and cname = "Some ''./a.js''" and rest = "[]", THEN conjunct1]
    rM seen
  have A: "isCyclic_loop 2 default_options ''a'' ''a'' ?idx (Some ''./a.js'') [esm ''a''] {''a''} =
           isCyclic_loop 2 default_options ''a'' ''a'' ?idx (Some ''./a.js'') [] {''a''}" by blast
  from self_reference_not_reported[where opts = default_options and modules = "Some self_loop"
      and m = "''a''" and n = 3, THEN conjunct2] m n nc
  have B: "\<exists>s. isCyclic 3 default_options ''a'' ''a'' ?idx {} = Return (None, s)" by blast
  from rM seen A t nc B show ?thesis by simp
qed




text \<open>
  C9. A pass over an index the builder made, with room on the call stack for more calls than
  the index has entries, reports each path its searches find once, in the order of the keys,
  and reports nothing else: its result is the compilation after \<open>report\<close> has been applied
  to the detected paths one after the other. When a detection callback is configured and
  throws for a detected path, the value it threw is appended to the errors of the
  compilation as the callback left it, and nothing else is added: no formatted message goes
  to the warnings or to the errors; with a callback that throws for every path and leaves
  the compilation alone, the pass appends one thrown value per detected path to the errors.
  When no callback is configured, the pass appends one message per detected path,
  \<^verbatim>\<open>"Circular dependency detected:\r\n"\<close> followed by the path joined with \<^verbatim>\<open>" -> "\<close>, to
  the warnings, or to the errors if \<open>failOnError\<close> is set, and leaves the other list as it
  was. Without start and end hooks, that is the result of the plugin.
\<close>

theorem report_once:
  assumes "length (build_modulesById opts modules) < stack"
  shows
   "detect_each stack opts (build_modulesById opts modules)
      (Object_keys (build_modulesById opts modules)) c =
    Return (foldl (\<lambda>c p. report opts p c) c
              (detections stack opts (build_modulesById opts modules)
                 (Object_keys (build_modulesById opts modules)))) \<and>
    (onDetected opts = Some callback \<and> callback paths compilation = (Some err, compilation') \<longrightarrow>
       errors (report opts paths compilation) = errors compilation' @ [Caught err] \<and>
       warnings (report opts paths compilation) = warnings compilation') \<and>
    (onDetected opts = Some callback \<and> (\<forall>p c. callback p c = (Some (thrown_for p), c)) \<longrightarrow>
       detect_each stack opts (build_modulesById opts modules)
         (Object_keys (build_modulesById opts modules)) c =
       Return (c\<lparr>errors := errors c @
                 map (\<lambda>p. Caught (thrown_for p))
                   (detections stack opts (build_modulesById opts modules)
                      (Object_keys (build_modulesById opts modules)))\<rparr>)) \<and>
    (onDetected opts = None \<longrightarrow>
       detect_each stack opts (build_modulesById opts modules)
         (Object_keys (build_modulesById opts modules)) c =
       Return
        (if failOnError opts
         then c\<lparr>errors := errors c @
                 map (\<lambda>p. Error (''Circular dependency detected:'' @ [CHR 0x0D, CHR 0x0A] @
                                    join '' -> '' p))
                   (detections stack opts (build_modulesById opts modules)
                      (Object_keys (build_modulesById opts modules)))\<rparr>
         else c\<lparr>warnings := warnings c @
                 map (\<lambda>p. Error (''Circular dependency detected:'' @ [CHR 0x0D, CHR 0x0A] @
                                    join '' -> '' p))
                   (detections stack opts (build_modulesById opts modules)
                      (Object_keys (build_modulesById opts modules)))\<rparr>)) \<and>
    (onStart opts = None \<and> onEnd opts = None \<longrightarrow>
       apply_plugin stack opts modules c =
       Return (foldl (\<lambda>c p. report opts p c) c
                 (detections stack opts (build_modulesById opts modules)
                    (Object_keys (build_modulesById opts modules)))))"
proof (intro conjI impI)
  let ?idx = "build_modulesById opts modules"
  let ?ds = "detections stack opts ?idx (Object_keys ?idx)"
  note pass = pass_reports[OF assms, where c = c]
  show "detect_each stack opts ?idx (Object_keys ?idx) c =
      Return (foldl (\<lambda>c p. report opts p c) c ?ds)" by (rule pass)
  {
    assume "onDetected opts = Some callback \<and> callback paths compilation = (Some err, compilation')"
    then show "errors (report opts paths compilation) = errors compilation' @ [Caught err]"
      and "warnings (report opts paths compilation) = warnings compilation'"
      by (simp_all add: report_def)
  }
  {
    assume a: "onDetected opts = Some callback \<and> (\<forall>p c. callback p c = (Some (thrown_for p), c))"
    have "foldl (\<lambda>c p. report opts p c) c ?ds =
        c\<lparr>errors := errors c @ map (\<lambda>p. Caught (thrown_for p)) ?ds\<rparr>"
      by (rule reports_of_throwing_callback[where callback = callback and err = thrown_for])
         (use a in simp_all)
    with pass show "detect_each stack opts ?idx (Object_keys ?idx) c =
        Return (c\<lparr>errors := errors c @ map (\<lambda>p. Caught (thrown_for p)) ?ds\<rparr>)"
      by simp
  }
  {
    assume a: "onDetected opts = None"
    show "detect_each stack opts ?idx (Object_keys ?idx) c =
       Return
        (if failOnError opts
         then c\<lparr>errors := errors c @
                 map (\<lambda>p. Error (''Circular dependency detected:'' @ [CHR 0x0D, CHR 0x0A] @
                                    join '' -> '' p)) ?ds\<rparr>
         else c\<lparr>warnings := warnings c @
                 map (\<lambda>p. Error (''Circular dependency detected:'' @ [CHR 0x0D, CHR 0x0A] @
                                    join '' -> '' p)) ?ds\<rparr>)"
    proof (cases "failOnError opts")
      case True
      from reports_as_errors[OF a True, of c ?ds] pass True show ?thesis
        by (simp add: message_def)
    next
      case False
      from reports_as_warnings[OF a False, of c ?ds] pass False show ?thesis
        by (simp add: message_def)
    qed
  }
  {
    assume "onStart opts = None \<and> onEnd opts = None"
    then show "apply_plugin stack opts modules c =
        Return (foldl (\<lambda>c p. report opts p c) c ?ds)"
      by (simp add: apply_plugin_def run_hook_def Let_def pass)
  }
qed

theorem report_once_witness:
  "length (build_modulesById default_options (Some two_cycle)) < 3 \<and>
   detections 3 default_options (build_modulesById default_options (Some two_cycle))
     (Object_keys (build_modulesById default_options (Some two_cycle))) =
     [[''a.js'', ''b.js'', ''a.js''], [''b.js'', ''a.js'', ''b.js'']] \<and>
   apply_plugin 3 default_options (Some two_cycle) \<lparr>errors = [], warnings = []\<rparr> =
     Return \<lparr>errors = [],
             warnings =
               [Error (''Circular dependency detected:'' @ [CHR 0x0D, CHR 0x0A] @ ''a.js -> b.js -> a.js''),
                Error (''Circular dependency detected:'' @ [CHR 0x0D, CHR 0x0A] @ ''b.js -> a.js -> b.js'')]\<rparr> \<and>
   detect_each 3 failing_options (build_modulesById failing_options (Some two_cycle))
     (Object_keys (build_modulesById failing_options (Some two_cycle)))
     \<lparr>errors = [], warnings = []\<rparr> =
     Return \<lparr>errors =
               [Error (''Circular dependency detected:'' @ [CHR 0x0D, CHR 0x0A] @ ''a.js -> b.js -> a.js''),
                Error (''Circular dependency detected:'' @ [CHR 0x0D, CHR 0x0A] @ ''b.js -> a.js -> b.js'')],
             warnings = []\<rparr> \<and>
   onDetected throwing_options = Some throwing_callback \<and>
   detect_each 3 throwing_options (build_modulesById throwing_options (Some two_cycle))
     (Object_keys (build_modulesById throwing_options (Some two_cycle)))
     \<lparr>errors = [], warnings = []\<rparr> =
     Return \<lparr>errors = [Caught (), Caught ()], warnings = []\<rparr> \<and>
   errors (report throwing_options [''a.js'', ''b.js'', ''a.js''] \<lparr>errors = [], warnings = []\<rparr>) =
     [Caught ()] \<and>
   warnings (report throwing_options [''a.js'', ''b.js'', ''a.js''] \<lparr>errors = [], warnings = []\<rparr>) = []"
proof -
  let ?c = "\<lparr>errors = [], warnings = []\<rparr> :: unit Compilation"
  let ?p = "[''a.js'', ''b.js'', ''a.js'']"
  have len: "length (build_modulesById opts (Some two_cycle)) < 3"
    if "include_re opts = default_include" "exclude_re opts = default_exclude"
    for opts :: "unit FullOptions"
    by (simp add: two_cycle_index_for[OF that])
  note ld = len[OF default_options_patterns]
    and lf = len[OF failing_options_fields(1,2)]
    and lt = len[OF throwing_options_fields(1,2)]
  note dd = two_cycle_detections_for[OF default_options_patterns default_hooks(5)]
    and df = two_cycle_detections_for[OF failing_options_fields(1,2,3)]
    and dt = two_cycle_detections_for[OF throwing_options_fields(1,2,3)]
  have cb: "\<forall>p c. throwing_callback p c = (Some ((\<lambda>p. ()) p), c)"
    by (simp add: throwing_callback_def)
  have cb1: "throwing_callback ?p ?c = (Some (), ?c)" by (simp add: throwing_callback_def)
  from report_once[OF ld, where c = ?c, THEN conjunct2, THEN conjunct2, THEN conjunct2,
      THEN conjunct2] default_hooks(1,3)
  have "apply_plugin 3 default_options (Some two_cycle) ?c =
      Return (foldl (\<lambda>c p. report default_options p c) ?c
                (detections 3 default_options (build_modulesById default_options (Some two_cycle))
                   (Object_keys (build_modulesById default_options (Some two_cycle)))))"
    by blast
  then have A: "apply_plugin 3 default_options (Some two_cycle) ?c =
     Return \<lparr>errors = [],
             warnings =
               [Error (''Circular dependency detected:'' @ [CHR 0x0D, CHR 0x0A] @ ''a.js -> b.js -> a.js''),
                Error (''Circular dependency detected:'' @ [CHR 0x0D, CHR 0x0A] @ ''b.js -> a.js -> b.js'')]\<rparr>"
    unfolding dd by (simp add: report_def default_hooks BASE_ERROR_def)
  from report_once[OF lf, where c = ?c, THEN conjunct2, THEN conjunct2, THEN conjunct2,
      THEN conjunct1] failing_options_fields(4)
  have "detect_each 3 failing_options (build_modulesById failing_options (Some two_cycle))
     (Object_keys (build_modulesById failing_options (Some two_cycle))) ?c =
     Return
        (if failOnError failing_options
         then ?c\<lparr>errors := errors ?c @
                 map (\<lambda>p. Error (''Circular dependency detected:'' @ [CHR 0x0D, CHR 0x0A] @
                                    join '' -> '' p))
                   (detections 3 failing_options (build_modulesById failing_options (Some two_cycle))
                      (Object_keys (build_modulesById failing_options (Some two_cycle))))\<rparr>
         else ?c\<lparr>warnings := warnings ?c @
                 map (\<lambda>p. Error (''Circular dependency detected:'' @ [CHR 0x0D, CHR 0x0A] @
                                    join '' -> '' p))
                   (detections 3 failing_options (build_modulesById failing_options (Some two_cycle))
                      (Object_keys (build_modulesById failing_options (Some two_cycle))))\<rparr>)"
    by blast
  then have B: "detect_each 3 failing_options (build_modulesById failing_options (Some two_cycle))
     (Object_keys (build_modulesById failing_options (Some two_cycle))) ?c =
     Return \<lparr>errors =
               [Error (''Circular dependency detected:'' @ [CHR 0x0D, CHR 0x0A] @ ''a.js -> b.js -> a.js''),
                Error (''Circular dependency detected:'' @ [CHR 0x0D, CHR 0x0A] @ ''b.js -> a.js -> b.js'')],
             warnings = []\<rparr>"
    unfolding df by (simp add: failing_options_fields)
  from report_once[OF lt, where c = ?c and callback = throwing_callback
      and thrown_for = "\<lambda>p. ()", THEN conjunct2, THEN conjunct2, THEN conjunct1]
    throwing_options_fields(4) cb
  have "detect_each 3 throwing_options (build_modulesById throwing_options (Some two_cycle))
     (Object_keys (build_modulesById throwing_options (Some two_cycle))) ?c =
     Return (?c\<lparr>errors := errors ?c @
                 map (\<lambda>p. Caught ())
                   (detections 3 throwing_options (build_modulesById throwing_options (Some two_cycle))
                      (Object_keys (build_modulesById throwing_options (Some two_cycle))))\<rparr>)"
    by blast
  then have C: "detect_each 3 throwing_options (build_modulesById throwing_options (Some two_cycle))
     (Object_keys (build_modulesById throwing_options (Some two_cycle))) ?c =
     Return \<lparr>errors = [Caught (), Caught ()], warnings = []\<rparr>"
    unfolding dt by simp
  from report_once[OF lt, where callback = throwing_callback and paths = ?p
      and compilation = ?c and err = "()" and compilation' = ?c, THEN conjunct2, THEN conjunct1]
    throwing_options_fields(4) cb1
  have D: "errors (report throwing_options ?p ?c) = [Caught ()]"
    "warnings (report throwing_options ?p ?c) = []" by simp_all
  from ld dd A B throwing_options_fields(4) C D show ?thesis by simp
qed

text \<open>
  C10. A path returned by the search \<open>isCyclic m m index {}\<close> on an index the builder made
  has at least three elements; its first and its last element are the normalized name of
  \<open>m\<close>; and every element is the normalized name of a module of the index, which has a
  non-empty name, so the fall-back to the raw identifier is never taken.
\<close>

theorem top_level_path_closed:
  assumes r: "isCyclic n opts m m (build_modulesById opts modules) {} = Return (Some p, s)"
  shows "3 \<le> length p \<and>
         (\<exists>md. map_of (build_modulesById opts modules) m = Some md \<and>
               normalizePath (name md) = Some (hd p) \<and> last p = hd p) \<and>
         (\<forall>x \<in> set p. \<exists>k md. map_of (build_modulesById opts modules) k = Some md \<and>
               truthy (name md) \<and> normalizePath (name md) = Some x)"
proof -
  let ?idx = "build_modulesById opts modules"
  from path_shape(1)[OF build_key_consistent r] obtain ks where
    ks: "p = map (displayName ?idx) (m # ks)" "ks \<noteq> []" "last ks = m"
        "successively (\<lambda>a b. (b, a) \<in> edges opts ?idx) (m # ks)"
        "set ks \<subseteq> dom (map_of ?idx)" by blast
  from ks(2) obtain c ks' where c: "ks = c # ks'" by (cases ks) auto
  with ks(4) have "(c, m) \<in> edges opts ?idx" by simp
  then have "c \<noteq> m" by (elim edgeE) auto
  with c ks(3) have ne: "ks' \<noteq> []" by auto
  with c ks(1) have len: "3 \<le> length p" by (cases ks') auto
  from ks(2,3,5) have mdom: "m \<in> dom (map_of ?idx)" using last_in_set by blast
  from ks(1,2,3) have hl: "hd p = displayName ?idx m" "last p = displayName ?idx m"
    by (simp_all add: last_map)
  from displayName_named[OF build_all_named mdom] hl
  have A: "\<exists>md. map_of ?idx m = Some md \<and> normalizePath (name md) = Some (hd p) \<and> last p = hd p"
    by auto
  have B: "\<exists>k md. map_of ?idx k = Some md \<and> truthy (name md) \<and> normalizePath (name md) = Some x"
    if "x \<in> set p" for x
  proof -
    from that ks(1) obtain k where k: "k \<in> set (m # ks)" "x = displayName ?idx k" by auto
    with mdom ks(5) have "k \<in> dom (map_of ?idx)" by auto
    from displayName_named[OF build_all_named this] k(2) show ?thesis by blast
  qed
  from len A B show ?thesis by blast
qed

theorem top_level_path_closed_witness:
  "isCyclic 3 default_options ''a'' ''a'' (build_modulesById default_options (Some two_cycle)) {} =
     Return (Some [''a.js'', ''b.js'', ''a.js''], {''b'', ''a''}) \<and>
   3 \<le> length [''a.js'', ''b.js'', ''a.js''] \<and>
   (\<exists>md. map_of (build_modulesById default_options (Some two_cycle)) ''a'' = Some md \<and>
         normalizePath (name md) = Some (hd [''a.js'', ''b.js'', ''a.js'']) \<and>
         last [''a.js'', ''b.js'', ''a.js''] = hd [''a.js'', ''b.js'', ''a.js'']) \<and>
   (\<exists>k md. map_of (build_modulesById default_options (Some two_cycle)) k = Some md \<and>
          truthy (name md) \<and> normalizePath (name md) = Some ''b.js'')"
proof -
  note r = top_level_path_closed[OF two_cycle_search]
  from r[THEN conjunct2, THEN conjunct2]
  have "\<exists>k md. map_of (build_modulesById default_options (Some two_cycle)) k = Some md \<and>
          truthy (name md) \<and> normalizePath (name md) = Some ''b.js''" by simp
  with two_cycle_search r[THEN conjunct1] r[THEN conjunct2, THEN conjunct1]
  show ?thesis by blast
qed


end
